theory Spec2Isabelle
  imports Complex_Main "HOL-Library.Sublist"
begin

section \<open>Values and built-ins of the JavaScript runtime\<close>

text \<open>
  What \<^verbatim>\<open>JSON.parse\<close> returns. An object is the association list of its own properties
  (\<^verbatim>\<open>JSON.parse\<close> keeps one entry per key).
\<close>

datatype json =
    JNull
  | JBool bool
  | JNum rat
  | JStr string
  | JArr "json list"
  | JObj "(string \<times> json) list"

datatype js_error = TypeError | SyntaxError | SendError | ENOENT | EACCES | ModuleNotFound

text \<open>
  A call either returns or raises; in both cases the effects it had on the state up to
  that point stay.
\<close>

datatype 'a outcome = Normal 'a | Throws js_error 'a

fun state_of :: "'a outcome \<Rightarrow> 'a" where
  "state_of (Normal s) = s"
| "state_of (Throws e s) = s"

text \<open>
  The built-ins and the configuration are not part of the repository; they are parameters
  of the model. \<^verbatim>\<open>JSON.parse\<close> raises a SyntaxError (\<open>None\<close>) or returns a value;
  \<^verbatim>\<open>JSON.stringify\<close> of a parsed value returns a string. \<open>REDIS_ENABLED\<close> is the
  constant of the same name, \<open>redis_module\<close> says whether \<^verbatim>\<open>require('redis')\<close> and
  \<^verbatim>\<open>createClient\<close> return.
\<close>

record env =
  JSON_parse :: "string \<Rightarrow> json option"
  JSON_stringify :: "json \<Rightarrow> string"
  REDIS_ENABLED :: bool
  redis_module :: bool

text \<open>\<^verbatim>\<open>event.event\<close>: reading a property of \<^verbatim>\<open>null\<close> raises a TypeError; a value
  without the property gives \<^verbatim>\<open>undefined\<close> (\<open>None\<close>).\<close>

fun get_event :: "json \<Rightarrow> js_error + json option" where
  "get_event JNull = Inl TypeError"
| "get_event (JObj kvs) = Inr (map_of kvs ''event'')"
| "get_event v = Inr None"

text \<open>
  A template literal \<^verbatim>\<open>`${v}`\<close> converts \<open>v\<close> to a string. For a parsed JSON value the
  conversion raises a TypeError exactly when it reaches an object with an own property
  \<^verbatim>\<open>toString\<close> (which is never callable there); an array converts its elements through
  \<^verbatim>\<open>join\<close>.
\<close>

fun template_throws :: "json \<Rightarrow> bool" where
  "template_throws (JObj kvs) = (''toString'' \<in> set (map fst kvs))"
| "template_throws (JArr xs) = list_ex template_throws xs"
| "template_throws v = False"

definition template_event :: "json \<Rightarrow> js_error + unit" where
  "template_event event =
     (case get_event event of
        Inl e \<Rightarrow> Inl e
      | Inr None \<Rightarrow> Inr ()
      | Inr (Some v) \<Rightarrow> (if template_throws v then Inl TypeError else Inr ()))"

section \<open>Client sockets and the server state\<close>

datatype readyState = CONNECTING | OPEN | CLOSING | CLOSED

text \<open>
  A socket of the \<^verbatim>\<open>ws\<close> library, which is not part of the repository: its
  \<^verbatim>\<open>readyState\<close>, whether \<^verbatim>\<open>send\<close> raises on it at present, and the frames that
  \<^verbatim>\<open>send\<close> has accepted for the client, oldest first.
\<close>

record socket =
  readyState :: readyState
  send_throws :: bool
  delivered :: "string list"

definition ws_send :: "socket \<Rightarrow> string \<Rightarrow> js_error + socket" where
  "ws_send sock message =
     (if send_throws sock then Inl SendError
      else Inr (sock\<lparr>delivered := delivered sock @ [message]\<rparr>))"

type_synonym ws_id = nat

text \<open>The spool directory: what \<^verbatim>\<open>fs\<close> answers for it.\<close>

record spool_file =
  mtimeMs :: rat
  raw :: string
  readable :: bool
  removable :: bool

record directory =
  listing_ok :: bool
  entries :: "(string \<times> spool_file) list"

datatype fs_op = Readdir | Stat string | ReadFile string | Unlink string

definition readdirSync :: "directory \<Rightarrow> js_error + string list" where
  "readdirSync d = (if listing_ok d then Inr (map fst (entries d)) else Inl EACCES)"

definition statSync :: "directory \<Rightarrow> string \<Rightarrow> js_error + spool_file" where
  "statSync d file = (case map_of (entries d) file of None \<Rightarrow> Inl ENOENT | Some f \<Rightarrow> Inr f)"

definition readFileSync :: "directory \<Rightarrow> string \<Rightarrow> js_error + string" where
  "readFileSync d file =
     (case map_of (entries d) file of
        None \<Rightarrow> Inl ENOENT
      | Some f \<Rightarrow> (if readable f then Inr (raw f) else Inl EACCES))"

definition unlinkSync :: "directory \<Rightarrow> string \<Rightarrow> js_error + directory" where
  "unlinkSync d file =
     (case map_of (entries d) file of
        None \<Rightarrow> Inl ENOENT
      | Some f \<Rightarrow>
          (if removable f then Inr (d\<lparr>entries := filter (\<lambda>p. fst p \<noteq> file) (entries d)\<rparr>)
           else Inl EACCES))"

datatype redis_phase =
    NotStarted
  | Disabled
  | Unloadable
  | ConnectingClient
  | ConnectingSubscriber
  | Subscribing
  | Subscribed
  | Failed

datatype log_line =
    ClientConnected nat
  | ClientDisconnected nat
  | SendFailed ws_id
  | ClientNotReady ws_id readyState
  | BroadcastComplete nat nat nat
  | RedisClientErrorLine
  | RedisSubscriberErrorLine
  | RedisUnavailable
  | RedisParseError js_error
  | InvalidRedisMessage js_error
  | FileEventError js_error
  | DirectoryWatchError js_error

text \<open>
  The module's variables: the Set \<open>clients\<close> in insertion order, the sockets it refers to,
  the sockets whose \<^verbatim>\<open>close\<close> and \<^verbatim>\<open>error\<close> listeners are registered, the lines written
  with \<^verbatim>\<open>console.error\<close>, \<^verbatim>\<open>console.warn\<close> and the counting \<^verbatim>\<open>console.log\<close> calls,
  \<open>redisAvailable\<close>, how far \<open>startRedis\<close> has run, \<open>processedFiles\<close>, the spool directory
  and the calls made to \<^verbatim>\<open>fs\<close> on it.
\<close>

record server =
  clients :: "ws_id list"
  sockets :: "ws_id \<Rightarrow> socket"
  listeners :: "ws_id set"
  console :: "log_line list"
  redisAvailable :: bool
  redis :: redis_phase
  processedFiles :: "string set"
  spool :: directory
  fs_trace :: "fs_op list"

definition Set_add :: "'a \<Rightarrow> 'a list \<Rightarrow> 'a list" where
  "Set_add x xs = (if x \<in> set xs then xs else xs @ [x])"

definition Set_delete :: "'a \<Rightarrow> 'a list \<Rightarrow> 'a list" where
  "Set_delete x xs = removeAll x xs"

section \<open>Connection lifecycle (both files)\<close>

definition connected_envelope :: json where
  "connected_envelope = JObj [(''event'', JStr ''connected''),
     (''payload'', JObj [(''message'', JStr ''Connected to tournament WebSocket server'')])]"

text \<open>The \<^verbatim>\<open>connection\<close> handler. A raising \<^verbatim>\<open>send\<close> leaves the handler before the
  listeners are registered.\<close>

definition on_connection :: "env \<Rightarrow> ws_id \<Rightarrow> server \<Rightarrow> server outcome" where
  "on_connection env ws s =
     (let s1 = s\<lparr>clients := Set_add ws (clients s)\<rparr>;
          s2 = s1\<lparr>console := console s1 @ [ClientConnected (length (clients s1))]\<rparr>
      in case ws_send (sockets s2 ws) (JSON_stringify env connected_envelope) of
           Inl e \<Rightarrow> Throws e s2
         | Inr sock \<Rightarrow>
             Normal (s2\<lparr>sockets := (sockets s2)(ws := sock),
                        listeners := insert ws (listeners s2)\<rparr>))"

definition on_close :: "ws_id \<Rightarrow> server \<Rightarrow> server" where
  "on_close ws s =
     (let s1 = s\<lparr>clients := Set_delete ws (clients s)\<rparr>
      in s1\<lparr>console := console s1 @ [ClientDisconnected (length (clients s1))]\<rparr>)"

definition on_error :: "ws_id \<Rightarrow> server \<Rightarrow> server" where
  "on_error ws s = s\<lparr>clients := Set_delete ws (clients s)\<rparr>"

section \<open>broadcast\<close>

subsection \<open>websocket-server.js\<close>

text \<open>The body of the \<^verbatim>\<open>for\<close> loop, with the counters \<open>sent\<close> and \<open>failed\<close>.\<close>

fun broadcast_loop :: "string \<Rightarrow> ws_id list \<Rightarrow> nat \<times> nat \<times> server \<Rightarrow> nat \<times> nat \<times> server" where
  "broadcast_loop message [] acc = acc"
| "broadcast_loop message (client # rest) (sent, failed, s) =
     (if readyState (sockets s client) = OPEN then
        (case ws_send (sockets s client) message of
           Inr sock \<Rightarrow>
             broadcast_loop message rest
               (sent + 1, failed, s\<lparr>sockets := (sockets s)(client := sock)\<rparr>)
         | Inl err \<Rightarrow>
             broadcast_loop message rest
               (sent, failed + 1, s\<lparr>console := console s @ [SendFailed client]\<rparr>))
      else
        broadcast_loop message rest
          (sent, failed + 1,
           s\<lparr>console := console s @ [ClientNotReady client (readyState (sockets s client))]\<rparr>))"

text \<open>The logging line \<^verbatim>\<open>`Event: ${event.event}`\<close> runs before the loop and can raise.\<close>

definition broadcast :: "env \<Rightarrow> json \<Rightarrow> server \<Rightarrow> server outcome" where
  "broadcast env event s =
     (let message = JSON_stringify env event
      in case template_event event of
           Inl e \<Rightarrow> Throws e s
         | Inr u \<Rightarrow>
             (case broadcast_loop message (clients s) (0, 0, s) of
                (sent, failed, s1) \<Rightarrow>
                  Normal (s1\<lparr>console := console s1 @
                    [BroadcastComplete sent failed (length (clients s1))]\<rparr>)))"

subsection \<open>The second file (Railway deployment)\<close>

text \<open>Here \<^verbatim>\<open>client.send\<close> stands in no \<^verbatim>\<open>try\<close>: when it raises, the loop is left.\<close>

fun broadcast_loop_railway :: "string \<Rightarrow> ws_id list \<Rightarrow> server \<Rightarrow> server outcome" where
  "broadcast_loop_railway message [] s = Normal s"
| "broadcast_loop_railway message (client # rest) s =
     (if readyState (sockets s client) = OPEN then
        (case ws_send (sockets s client) message of
           Inr sock \<Rightarrow>
             broadcast_loop_railway message rest (s\<lparr>sockets := (sockets s)(client := sock)\<rparr>)
         | Inl err \<Rightarrow> Throws err s)
      else broadcast_loop_railway message rest s)"

definition broadcast_railway :: "env \<Rightarrow> json \<Rightarrow> server \<Rightarrow> server outcome" where
  "broadcast_railway env event s =
     broadcast_loop_railway (JSON_stringify env event) (clients s) s"

section \<open>The broker subscription\<close>

subsection \<open>The message callbacks\<close>

definition on_message :: "env \<Rightarrow> string \<Rightarrow> server \<Rightarrow> server" where
  "on_message env message s =
     (case JSON_parse env message of
        None \<Rightarrow> s\<lparr>console := console s @ [RedisParseError SyntaxError]\<rparr>
      | Some event \<Rightarrow>
          (case get_event event of
             Inl e \<Rightarrow> s\<lparr>console := console s @ [RedisParseError e]\<rparr>
           | Inr v \<Rightarrow>
               (case broadcast env event s of
                  Throws e s1 \<Rightarrow> s1\<lparr>console := console s1 @ [RedisParseError e]\<rparr>
                | Normal s1 \<Rightarrow> s1)))"

definition on_message_railway :: "env \<Rightarrow> string \<Rightarrow> server \<Rightarrow> server" where
  "on_message_railway env message s =
     (case JSON_parse env message of
        None \<Rightarrow> s\<lparr>console := console s @ [InvalidRedisMessage SyntaxError]\<rparr>
      | Some event \<Rightarrow>
          (case template_event event of
             Inl e \<Rightarrow> s\<lparr>console := console s @ [InvalidRedisMessage e]\<rparr>
           | Inr u \<Rightarrow>
               (case broadcast_railway env event s of
                  Throws e s1 \<Rightarrow> s1\<lparr>console := console s1 @ [InvalidRedisMessage e]\<rparr>
                | Normal s1 \<Rightarrow> s1)))"

subsection \<open>startRedis (websocket-server.js)\<close>

text \<open>
  \<open>startRedis\<close> runs up to its first \<^verbatim>\<open>await\<close>; \<open>startRedis_resume\<close> is what it does
  when the promise it waits for settles (\<open>True\<close>: resolved, \<open>False\<close>: rejected). The
  phase says which promise is pending: \<open>ConnectingClient\<close> and \<open>ConnectingSubscriber\<close> the
  two \<^verbatim>\<open>connect\<close> calls, \<open>Subscribing\<close> the \<^verbatim>\<open>subscribe\<close> call.
\<close>

definition redis_catch :: "server \<Rightarrow> server" where
  "redis_catch s =
     s\<lparr>redisAvailable := False, redis := Failed, console := console s @ [RedisUnavailable]\<rparr>"

definition startRedis :: "env \<Rightarrow> server \<Rightarrow> server" where
  "startRedis env s =
     (if \<not> REDIS_ENABLED env then s\<lparr>redis := Disabled\<rparr>
      else if \<not> redis_module env then (redis_catch s)\<lparr>redis := Unloadable\<rparr>
      else s\<lparr>redis := ConnectingClient\<rparr>)"

definition startRedis_resume :: "bool \<Rightarrow> server \<Rightarrow> server" where
  "startRedis_resume resolved s =
     (case redis s of
        ConnectingClient \<Rightarrow>
          (if resolved then s\<lparr>redis := ConnectingSubscriber\<rparr> else redis_catch s)
      | ConnectingSubscriber \<Rightarrow>
          (if resolved then s\<lparr>redisAvailable := True, redis := Subscribing\<rparr> else redis_catch s)
      | Subscribing \<Rightarrow>
          (if resolved then s\<lparr>redis := Subscribed\<rparr> else redis_catch s)
      | other \<Rightarrow> s)"

text \<open>The \<^verbatim>\<open>error\<close> listeners of the two broker connections.\<close>

definition on_redis_error :: "log_line \<Rightarrow> server \<Rightarrow> server" where
  "on_redis_error line s = s\<lparr>redisAvailable := False, console := console s @ [line]\<rparr>"

section \<open>The file fallback (websocket-server.js)\<close>

definition is_event_file :: "string \<Rightarrow> bool" where
  "is_event_file f = (prefix ''tournament_'' f \<and> suffix ''.json'' f)"

definition file_error :: "js_error \<Rightarrow> server \<Rightarrow> server" where
  "file_error e s = s\<lparr>console := console s @ [FileEventError e]\<rparr>"

text \<open>The inner \<^verbatim>\<open>try\<close> block of the loop with its \<^verbatim>\<open>catch\<close>; \<open>now\<close> is
  \<^verbatim>\<open>Date.now()\<close>.\<close>

definition consume :: "env \<Rightarrow> int \<Rightarrow> string \<Rightarrow> server \<Rightarrow> server" where
  "consume env now file s =
     (let s1 = s\<lparr>fs_trace := fs_trace s @ [Stat file]\<rparr>
      in case statSync (spool s) file of
           Inl e \<Rightarrow> file_error e s1
         | Inr stats \<Rightarrow>
             if of_int now - mtimeMs stats < 50
             then s1\<lparr>processedFiles := processedFiles s1 - {file}\<rparr>
             else
               (let s2 = s1\<lparr>fs_trace := fs_trace s1 @ [ReadFile file]\<rparr>
                in case readFileSync (spool s) file of
                     Inl e \<Rightarrow> file_error e s2
                   | Inr text \<Rightarrow>
                       (case JSON_parse env text of
                          None \<Rightarrow> file_error SyntaxError s2
                        | Some event \<Rightarrow>
                            (case get_event event of
                               Inl e \<Rightarrow> file_error e s2
                             | Inr v \<Rightarrow>
                                 (case broadcast env event s2 of
                                    Throws e s3 \<Rightarrow> file_error e s3
                                  | Normal s3 \<Rightarrow>
                                      (let s4 = s3\<lparr>fs_trace := fs_trace s3 @ [Unlink file]\<rparr>
                                       in case unlinkSync (spool s3) file of
                                            Inl e \<Rightarrow> file_error e s4
                                          | Inr d \<Rightarrow> s4\<lparr>spool := d\<rparr>))))))"

text \<open>One iteration of the \<^verbatim>\<open>for\<close> loop over the listed files, and the loop.\<close>

definition scan_file :: "env \<Rightarrow> int \<Rightarrow> string \<Rightarrow> server \<Rightarrow> server" where
  "scan_file env now file s =
     (if file \<in> processedFiles s then s
      else consume env now file (s\<lparr>processedFiles := insert file (processedFiles s)\<rparr>))"

fun scan :: "env \<Rightarrow> int \<Rightarrow> string list \<Rightarrow> server \<Rightarrow> server" where
  "scan env now [] s = s"
| "scan env now (file # files) s = scan env now files (scan_file env now file s)"

text \<open>The callback of \<^verbatim>\<open>setInterval\<close>.\<close>

definition poll :: "env \<Rightarrow> int \<Rightarrow> server \<Rightarrow> server" where
  "poll env now s =
     (if redisAvailable s then s
      else
        (let s1 = s\<lparr>fs_trace := fs_trace s @ [Readdir]\<rparr>
         in case readdirSync (spool s) of
              Inl e \<Rightarrow> s1\<lparr>console := console s1 @ [DirectoryWatchError e]\<rparr>
            | Inr names \<Rightarrow> scan env now (filter is_event_file names) s1))"

section \<open>The event loop\<close>

text \<open>
  The handlers run one at a time, each to its end. The events: the \<^verbatim>\<open>connection\<close>,
  \<^verbatim>\<open>close\<close> and \<^verbatim>\<open>error\<close> events of the WebSocket server and its sockets, a change
  that the library makes to a socket, the settling of the promise \<open>startRedis\<close> waits for,
  the \<^verbatim>\<open>error\<close> events of the two broker connections, a message on the channel, a tick
  of the timer at a time \<^verbatim>\<open>Date.now()\<close>, and a change to the spool directory from outside.
  An exception that leaves a handler (\<open>Throws\<close>) ends the process.
\<close>

datatype event =
    Connection ws_id
  | SocketClose ws_id
  | SocketError ws_id
  | SocketState ws_id readyState bool
  | RedisSettled bool
  | RedisClientError
  | RedisSubscriberError
  | RedisMessage string
  | Tick int
  | SpoolChange directory

definition set_socket :: "ws_id \<Rightarrow> readyState \<Rightarrow> bool \<Rightarrow> server \<Rightarrow> server" where
  "set_socket ws r t s =
     s\<lparr>sockets := (sockets s)(ws := (sockets s ws)\<lparr>readyState := r, send_throws := t\<rparr>)\<rparr>"

fun step :: "env \<Rightarrow> event \<Rightarrow> server \<Rightarrow> server outcome" where
  "step env (Connection ws) s = on_connection env ws s"
| "step env (SocketClose ws) s = Normal (if ws \<in> listeners s then on_close ws s else s)"
| "step env (SocketError ws) s = Normal (if ws \<in> listeners s then on_error ws s else s)"
| "step env (SocketState ws r t) s = Normal (set_socket ws r t s)"
| "step env (RedisSettled resolved) s = Normal (startRedis_resume resolved s)"
| "step env RedisClientError s =
     Normal (if redis s \<in> {NotStarted, Disabled, Unloadable} then s
             else on_redis_error RedisClientErrorLine s)"
| "step env RedisSubscriberError s =
     Normal (if redis s \<in> {NotStarted, Disabled, Unloadable} then s
             else on_redis_error RedisSubscriberErrorLine s)"
| "step env (RedisMessage m) s =
     Normal (if redis s \<in> {Subscribing, Subscribed} then on_message env m s else s)"
| "step env (Tick now) s = Normal (poll env now s)"
| "step env (SpoolChange d) s = Normal (s\<lparr>spool := d\<rparr>)"

fun run :: "env \<Rightarrow> event list \<Rightarrow> server \<Rightarrow> server outcome" where
  "run env [] s = Normal s"
| "run env (e # es) s =
     (case step env e s of
        Normal s1 \<Rightarrow> run env es s1
      | Throws err s1 \<Rightarrow> Throws err s1)"

text \<open>The state once the module has been loaded: no client, nothing processed, and
  \<open>startRedis\<close> called.\<close>

definition loaded :: "env \<Rightarrow> (ws_id \<Rightarrow> socket) \<Rightarrow> directory \<Rightarrow> server" where
  "loaded env socks d =
     startRedis env
       \<lparr>clients = [], sockets = socks, listeners = {}, console = [],
        redisAvailable = False, redis = NotStarted, processedFiles = {},
        spool = d, fs_trace = []\<rparr>"

text \<open>The event loop of the second file: it has no timer and no availability flag, and
  a message reaches \<open>on_message_railway\<close>.\<close>

fun step_railway :: "env \<Rightarrow> event \<Rightarrow> server \<Rightarrow> server outcome" where
  "step_railway env (Connection ws) s = on_connection env ws s"
| "step_railway env (SocketClose ws) s = Normal (if ws \<in> listeners s then on_close ws s else s)"
| "step_railway env (SocketError ws) s = Normal (if ws \<in> listeners s then on_error ws s else s)"
| "step_railway env (SocketState ws r t) s = Normal (set_socket ws r t s)"
| "step_railway env (RedisMessage m) s = Normal (on_message_railway env m s)"
| "step_railway env e s = Normal s"

fun run_railway :: "env \<Rightarrow> event list \<Rightarrow> server \<Rightarrow> server outcome" where
  "run_railway env [] s = Normal s"
| "run_railway env (e # es) s =
     (case step_railway env e s of
        Normal s1 \<Rightarrow> run_railway env es s1
      | Throws err s1 \<Rightarrow> Throws err s1)"

section \<open>Predicates and example data used in the statements\<close>

text \<open>What \<open>broadcast\<close> may change: the sockets and the console, nothing else.\<close>

definition only_sockets_console :: "server \<Rightarrow> server \<Rightarrow> bool" where
  "only_sockets_console s s' \<longleftrightarrow>
     clients s' = clients s \<and> listeners s' = listeners s \<and>
     redisAvailable s' = redisAvailable s \<and> redis s' = redis s \<and>
     processedFiles s' = processedFiles s \<and> spool s' = spool s \<and>
     fs_trace s' = fs_trace s"

text \<open>
  Example data: an envelope and its text, an environment whose built-ins are given on the
  few values the examples use, and a server with two registered clients whose sockets
  are both \<open>OPEN\<close>; \<^verbatim>\<open>send\<close> raises on socket 0, which comes first in the Set.
\<close>

definition demo_event :: json where
  "demo_event = JObj [(''event'', JStr ''match_updated''), (''payload'', JObj [(''matchId'', JNum 7)])]"

definition demo_text :: string where
  \<open>demo_text = ''{"event":"match_updated","payload":{"matchId":7}}''\<close>

definition demo_env :: env where
  "demo_env =
     \<lparr>JSON_parse = (\<lambda>t. if t = demo_text then Some demo_event
                         else if t = ''null'' then Some JNull else None),
      JSON_stringify = (\<lambda>v. if v = demo_event then demo_text
                             else if v = connected_envelope then ''connected'' else ''null''),
      REDIS_ENABLED = True,
      redis_module = True\<rparr>"

definition demo_socket :: "bool \<Rightarrow> socket" where
  "demo_socket t = \<lparr>readyState = OPEN, send_throws = t, delivered = []\<rparr>"

definition demo_file :: spool_file where
  "demo_file = \<lparr>mtimeMs = 1000, raw = demo_text, readable = True, removable = True\<rparr>"

definition demo_spool :: directory where
  "demo_spool = \<lparr>listing_ok = True, entries = [(''tournament_42.json'', demo_file)]\<rparr>"

definition demo_server :: server where
  "demo_server =
     \<lparr>clients = [0, 1], sockets = (\<lambda>ws. demo_socket (ws = 0)), listeners = {0, 1},
      console = [], redisAvailable = False, redis = Failed, processedFiles = {},
      spool = demo_spool, fs_trace = []\<rparr>"

text \<open>Both \<^verbatim>\<open>connect\<close> calls have resolved and \<^verbatim>\<open>subscribe\<close> has been called.\<close>

definition subscribe_issued :: "server \<Rightarrow> bool" where
  "subscribe_issued s \<longleftrightarrow> redis s = Subscribing \<or> redis s = Subscribed"

text \<open>A socket on which a \<^verbatim>\<open>send\<close> from \<open>broadcast\<close> succeeds: it is \<open>OPEN\<close> and
  \<^verbatim>\<open>send\<close> does not raise. \<open>push\<close> adds frames to what a socket has accepted.\<close>

definition accepts :: "socket \<Rightarrow> bool" where
  "accepts sock \<longleftrightarrow> readyState sock = OPEN \<and> \<not> send_throws sock"

definition push :: "string list \<Rightarrow> socket \<Rightarrow> socket" where
  "push ms sock = sock\<lparr>delivered := delivered sock @ ms\<rparr>"

text \<open>A sequence of \<open>broadcast\<close> calls, one after the other; what a call raises is
  caught by its caller (both callers of \<open>broadcast\<close> stand in a \<^verbatim>\<open>try\<close>).\<close>

fun broadcast_all :: "env \<Rightarrow> json list \<Rightarrow> server \<Rightarrow> server" where
  "broadcast_all env [] s = s"
| "broadcast_all env (event # events) s =
     broadcast_all env events (state_of (broadcast env event s))"

fun broadcast_all_railway :: "env \<Rightarrow> json list \<Rightarrow> server \<Rightarrow> server" where
  "broadcast_all_railway env [] s = s"
| "broadcast_all_railway env (event # events) s =
     broadcast_all_railway env events (state_of (broadcast_railway env event s))"

text \<open>A call to \<^verbatim>\<open>fs\<close> that concerns the file of a given name.\<close>

fun touches :: "string \<Rightarrow> fs_op \<Rightarrow> bool" where
  "touches file Readdir = False"
| "touches file (Stat f) = (f = file)"
| "touches file (ReadFile f) = (f = file)"
| "touches file (Unlink f) = (f = file)"

text \<open>From state \<open>s\<close> to state \<open>s'\<close> no call to \<^verbatim>\<open>fs\<close> concerned the file, and in \<open>s'\<close>
  its name is in \<open>processedFiles\<close>.\<close>

definition left_alone :: "string \<Rightarrow> server \<Rightarrow> server \<Rightarrow> bool" where
  "left_alone file s s' \<longleftrightarrow>
     file \<in> processedFiles s' \<and> prefix (fs_trace s) (fs_trace s') \<and>
     list_all (\<lambda>op. \<not> touches file op) (drop (length (fs_trace s)) (fs_trace s'))"

text \<open>The example server with a second spool file that does not parse.\<close>

definition demo_poisoned :: server where
  "demo_poisoned =
     demo_server\<lparr>spool :=
       \<lparr>listing_ok = True,
        entries = [(''tournament_07.json'', demo_file\<lparr>raw := ''{not json''\<rparr>),
                   (''tournament_42.json'', demo_file)]\<rparr>\<rparr>"

text \<open>
  What the code makes of the text of a message or a file before it sends anything: the
  parsed value, or the error raised by \<^verbatim>\<open>JSON.parse\<close>, by reading \<^verbatim>\<open>event.event\<close> or by
  the logging line at the head of \<open>broadcast\<close>.
\<close>

definition decode :: "env \<Rightarrow> string \<Rightarrow> js_error + json" where
  "decode env content =
     (case JSON_parse env content of
        None \<Rightarrow> Inl SyntaxError
      | Some event \<Rightarrow> (case template_event event of Inl e \<Rightarrow> Inl e | Inr u \<Rightarrow> Inr event))"

text \<open>The text of the greeting as \<^verbatim>\<open>JSON.stringify\<close> gives it, and the example environment
  with that value of the built-in.\<close>

definition connected_text :: string where
  \<open>connected_text =
     ''{"event":"connected","payload":{"message":"Connected to tournament WebSocket server"}}''\<close>

definition demo_wire_env :: env where
  "demo_wire_env =
     demo_env\<lparr>JSON_stringify :=
       (\<lambda>v. if v = JObj [(''event'', JStr ''connected''),
                   (''payload'', JObj [(''message'',
                      JStr ''Connected to tournament WebSocket server'')])]
            then connected_text else JSON_stringify demo_env v)\<rparr>"

section \<open>What broadcast leaves alone\<close>

lemma broadcast_loop_frame:
  "only_sockets_console s (snd (snd (broadcast_loop message cs (sent, failed, s))))"
  by (induction cs arbitrary: sent failed s)
     (simp_all add: only_sockets_console_def split: sum.splits)

lemma broadcast_frame: "only_sockets_console s (state_of (broadcast env event s))"
proof (cases "template_event event")
  case (Inl e)
  then show ?thesis by (simp add: broadcast_def only_sockets_console_def)
next
  case (Inr u)
  obtain n k s1 where
    l: "broadcast_loop (JSON_stringify env event) (clients s) (0, 0, s) = (n, k, s1)"
    by (cases "broadcast_loop (JSON_stringify env event) (clients s) (0, 0, s)") auto
  from broadcast_loop_frame [of s "JSON_stringify env event" "clients s" 0 0] l
  have "only_sockets_console s s1" by simp
  with Inr l show ?thesis by (simp add: broadcast_def only_sockets_console_def)
qed

lemma broadcast_Normal_frame:
  "broadcast env event s = Normal s' \<Longrightarrow> only_sockets_console s s'"
  using broadcast_frame [of s env event] by simp

lemma broadcast_Throws_frame:
  "broadcast env event s = Throws e s' \<Longrightarrow> only_sockets_console s s'"
  using broadcast_frame [of s env event] by simp

lemma broadcast_loop_railway_frame:
  "only_sockets_console s (state_of (broadcast_loop_railway message cs s))"
  by (induction cs arbitrary: s)
     (simp_all add: only_sockets_console_def split: sum.splits)

lemma broadcast_railway_frame:
  "only_sockets_console s (state_of (broadcast_railway env event s))"
  unfolding broadcast_railway_def by (rule broadcast_loop_railway_frame)

lemma on_message_frame: "only_sockets_console s (on_message env m s)"
  by (auto simp: on_message_def only_sockets_console_def
        split: sum.splits option.splits outcome.splits
        dest!: broadcast_Normal_frame broadcast_Throws_frame)

section \<open>The processed-file set\<close>

lemma consume_processedFiles:
  "processedFiles (consume env now file s) = processedFiles s \<or>
   processedFiles (consume env now file s) = processedFiles s - {file}"
  by (auto simp: consume_def file_error_def Let_def only_sockets_console_def
        split: sum.splits option.splits outcome.splits
        dest!: broadcast_Normal_frame broadcast_Throws_frame)

lemma scan_file_processedFiles:
  "processedFiles s \<subseteq> processedFiles (scan_file env now file s)"
proof (cases "file \<in> processedFiles s")
  case True
  then show ?thesis by (simp add: scan_file_def)
next
  case False
  let ?s1 = "s\<lparr>processedFiles := insert file (processedFiles s)\<rparr>"
  from consume_processedFiles [of env now "file" ?s1] False
  show ?thesis by (auto simp: scan_file_def)
qed

lemma scan_processedFiles: "processedFiles s \<subseteq> processedFiles (scan env now files s)"
proof (induction files arbitrary: s)
  case Nil
  show ?case by simp
next
  case (Cons f files)
  have "processedFiles s \<subseteq> processedFiles (scan_file env now f s)"
    by (rule scan_file_processedFiles)
  also have "\<dots> \<subseteq> processedFiles (scan env now files (scan_file env now f s))"
    by (rule Cons.IH)
  finally show ?case by simp
qed

lemma poll_processedFiles: "processedFiles s \<subseteq> processedFiles (poll env now s)"
proof (cases "redisAvailable s")
  case True
  then show ?thesis by (simp add: poll_def)
next
  case False
  show ?thesis
  proof (cases "readdirSync (spool s)")
    case (Inl e)
    with False show ?thesis by (simp add: poll_def)
  next
    case (Inr names)
    from scan_processedFiles
      [of "s\<lparr>fs_trace := fs_trace s @ [Readdir]\<rparr>" env now "filter is_event_file names"]
    show ?thesis using False Inr by (simp add: poll_def)
  qed
qed

lemma step_processedFiles: "processedFiles s \<subseteq> processedFiles (state_of (step env e s))"
proof (cases e)
  case (Tick now)
  then show ?thesis by (simp add: poll_processedFiles)
next
  case (RedisMessage m)
  with on_message_frame [of s env m] show ?thesis by (simp add: only_sockets_console_def)
qed (simp_all add: on_connection_def Let_def on_close_def on_error_def set_socket_def
       startRedis_resume_def redis_catch_def on_redis_error_def
       split: sum.splits redis_phase.splits)

text \<open>
  C9. The processed-file set only grows: a file name that is in \<open>processedFiles\<close> before
  one iteration of the loop over the listed files, before one run of the timer callback,
  or before any handler of the event loop, is still in it afterwards. (Inside one
  iteration the name of a file younger than the grace window is added and taken out
  again; it was not in the set when the iteration began.)
\<close>

theorem processedFiles_monotone:
  "processedFiles s \<subseteq> processedFiles (scan_file env now file s) \<and>
   processedFiles s \<subseteq> processedFiles (poll env now s) \<and>
   processedFiles s \<subseteq> processedFiles (state_of (step env e s))"
  using scan_file_processedFiles poll_processedFiles step_processedFiles by blast

section \<open>The gate of the file fallback\<close>

text \<open>
  C2. While \<open>redisAvailable\<close> is true, a run of the timer callback changes nothing: it
  lists, reads and deletes no spool file (the record of \<^verbatim>\<open>fs\<close> calls and the directory
  stay as they are), whatever the directory holds.
\<close>

theorem poll_skips_while_available:
  "redisAvailable s \<Longrightarrow>
     poll env now s = s \<and> step env (Tick now) s = Normal s \<and>
     fs_trace (poll env now s) = fs_trace s \<and> spool (poll env now s) = spool s"
  by (simp add: poll_def)

theorem poll_skips_while_available_witness:
  "redisAvailable (demo_server\<lparr>redisAvailable := True\<rparr>) \<and>
   map fst (entries (spool (demo_server\<lparr>redisAvailable := True\<rparr>))) = [''tournament_42.json''] \<and>
   poll demo_env 5000 (demo_server\<lparr>redisAvailable := True\<rparr>) = demo_server\<lparr>redisAvailable := True\<rparr> \<and>
   fs_trace (poll demo_env 5000 (demo_server\<lparr>redisAvailable := True\<rparr>)) = []"
  using poll_skips_while_available [of "demo_server\<lparr>redisAvailable := True\<rparr>" demo_env 5000]
  by (simp add: demo_server_def demo_spool_def)

section \<open>The registry\<close>

lemma consume_clients: "clients (consume env now file s) = clients s"
  by (auto simp: consume_def file_error_def Let_def only_sockets_console_def
        split: sum.splits option.splits outcome.splits
        dest!: broadcast_Normal_frame broadcast_Throws_frame)

lemma scan_clients: "clients (scan env now files s) = clients s"
  by (induction files arbitrary: s) (simp_all add: scan_file_def consume_clients)

lemma poll_clients: "clients (poll env now s) = clients s"
  by (simp add: poll_def Let_def scan_clients split: sum.splits)

lemma on_message_railway_frame: "only_sockets_console s (on_message_railway env m s)"
proof (cases "broadcast_railway env (the (JSON_parse env m)) s")
  case (Normal s1)
  with broadcast_railway_frame [of s env "the (JSON_parse env m)"]
  show ?thesis
    by (auto simp: on_message_railway_def only_sockets_console_def split: sum.splits option.splits)
next
  case (Throws e s1)
  with broadcast_railway_frame [of s env "the (JSON_parse env m)"]
  show ?thesis
    by (auto simp: on_message_railway_def only_sockets_console_def split: sum.splits option.splits)
qed

text \<open>
  C10. \<open>broadcast\<close> does not change the registry: in both files the Set \<open>clients\<close> after
  the call is the Set before it, whether the call returns or raises and whatever the
  sockets do. The handlers of the event loop other than those of \<^verbatim>\<open>connection\<close>,
  \<^verbatim>\<open>close\<close> and \<^verbatim>\<open>error\<close> leave it unchanged as well.
\<close>

theorem broadcast_keeps_registry:
  "clients (state_of (broadcast env event s)) = clients s \<and>
   clients (state_of (broadcast_railway env event s)) = clients s \<and>
   clients (state_of (step env (SocketState ws r t) s)) = clients s \<and>
   clients (state_of (step env (RedisSettled b) s)) = clients s \<and>
   clients (state_of (step env RedisClientError s)) = clients s \<and>
   clients (state_of (step env RedisSubscriberError s)) = clients s \<and>
   clients (state_of (step env (RedisMessage m) s)) = clients s \<and>
   clients (state_of (step env (Tick now) s)) = clients s \<and>
   clients (state_of (step env (SpoolChange d) s)) = clients s \<and>
   clients (state_of (step_railway env (RedisMessage m) s)) = clients s"
proof -
  have a: "clients (state_of (broadcast env event s)) = clients s"
    using broadcast_frame [of s env event] by (simp add: only_sockets_console_def)
  have b: "clients (state_of (broadcast_railway env event s)) = clients s"
    using broadcast_railway_frame [of s env event] by (simp add: only_sockets_console_def)
  have c: "clients (state_of (step env (SocketState ws r t) s)) = clients s"
    by (simp add: set_socket_def)
  have d: "clients (state_of (step env (RedisSettled b) s)) = clients s"
    by (simp add: startRedis_resume_def redis_catch_def split: redis_phase.splits)
  have e: "clients (state_of (step env RedisClientError s)) = clients s"
    "clients (state_of (step env RedisSubscriberError s)) = clients s"
    by (simp_all add: on_redis_error_def)
  have f: "clients (state_of (step env (RedisMessage m) s)) = clients s"
    using on_message_frame [of s env m] by (simp add: only_sockets_console_def)
  have g: "clients (state_of (step env (Tick now) s)) = clients s"
    by (simp add: poll_clients)
  have h: "clients (state_of (step env (SpoolChange d) s)) = clients s"
    by simp
  have i: "clients (state_of (step_railway env (RedisMessage m) s)) = clients s"
    using on_message_railway_frame [of s env m] by (simp add: only_sockets_console_def)
  from a b c d e f g h i show ?thesis by simp
qed

section \<open>The availability flag during startRedis\<close>

lemma consume_redis:
  "redisAvailable (consume env now file s) = redisAvailable s \<and>
   redis (consume env now file s) = redis s"
  by (auto simp: consume_def file_error_def Let_def only_sockets_console_def
        split: sum.splits option.splits outcome.splits
        dest!: broadcast_Normal_frame broadcast_Throws_frame)

lemma scan_redis:
  "redisAvailable (scan env now files s) = redisAvailable s \<and>
   redis (scan env now files s) = redis s"
  by (induction files arbitrary: s) (simp_all add: scan_file_def consume_redis)

lemma poll_redis:
  "redisAvailable (poll env now s) = redisAvailable s \<and> redis (poll env now s) = redis s"
  by (simp add: poll_def Let_def scan_redis split: sum.splits)

lemma step_flag:
  assumes "redisAvailable s \<Longrightarrow> subscribe_issued s"
    and "redisAvailable (state_of (step env e s))"
  shows "subscribe_issued (state_of (step env e s))"
proof (cases e)
  case (Tick now)
  with assms show ?thesis by (simp add: poll_redis subscribe_issued_def)
next
  case (RedisMessage m)
  with assms on_message_frame [of s env m] show ?thesis
    by (auto simp: only_sockets_console_def subscribe_issued_def split: if_splits)
next
  case (RedisSettled b)
  with assms show ?thesis
    by (auto simp: startRedis_resume_def redis_catch_def subscribe_issued_def
          split: redis_phase.splits if_splits)
next
  case (Connection ws)
  with assms show ?thesis
    by (auto simp: on_connection_def Let_def subscribe_issued_def split: sum.splits)
qed (use assms in \<open>auto simp: on_close_def on_error_def set_socket_def on_redis_error_def
       subscribe_issued_def Let_def split: if_splits\<close>)

lemma run_flag:
  assumes "redisAvailable s \<Longrightarrow> subscribe_issued s"
    and "redisAvailable (state_of (run env evs s))"
  shows "subscribe_issued (state_of (run env evs s))"
  using assms
proof (induction evs arbitrary: s)
  case Nil
  then show ?case by simp
next
  case (Cons e evs)
  show ?case
  proof (cases "step env e s")
    case (Normal s1)
    have "redisAvailable s1 \<Longrightarrow> subscribe_issued s1"
      using step_flag [of s env e] Cons.prems(1) Normal by simp
    moreover have "redisAvailable (state_of (run env evs s1))"
      using Cons.prems(2) Normal by simp
    ultimately have "subscribe_issued (state_of (run env evs s1))" by (rule Cons.IH)
    with Normal show ?thesis by simp
  next
    case (Throws err s1)
    with step_flag [of s env e] Cons.prems show ?thesis by simp
  qed
qed

lemma loaded_flag: "\<not> redisAvailable (loaded env socks d)"
  by (simp add: loaded_def startRedis_def redis_catch_def)

text \<open>
  C7, as the code has it. From the loaded module on, \<open>redisAvailable\<close> is true only in
  states where both broker connections have connected and \<^verbatim>\<open>subscribe\<close> has been
  called: the subscription is then pending or completed. In particular the flag is
  false before the second \<^verbatim>\<open>connect\<close> resolves and after a failure of \<^verbatim>\<open>subscribe\<close>.
\<close>

theorem flag_true_only_after_connects:
  "redisAvailable (state_of (run env evs (loaded env socks d))) \<Longrightarrow>
     redis (state_of (run env evs (loaded env socks d))) = Subscribing \<or>
     redis (state_of (run env evs (loaded env socks d))) = Subscribed"
  using run_flag [of "loaded env socks d" env evs] loaded_flag [of env socks d]
  by (simp add: subscribe_issued_def)

theorem flag_true_only_after_connects_witness:
  "redisAvailable (state_of (run demo_env [RedisSettled True, RedisSettled True, RedisSettled True]
      (loaded demo_env (\<lambda>ws. demo_socket False) demo_spool))) \<and>
   redis (state_of (run demo_env [RedisSettled True, RedisSettled True, RedisSettled True]
      (loaded demo_env (\<lambda>ws. demo_socket False) demo_spool))) = Subscribed"
  using flag_true_only_after_connects [of demo_env
      "[RedisSettled True, RedisSettled True, RedisSettled True]" "\<lambda>ws. demo_socket False" demo_spool]
  by (simp add: loaded_def startRedis_def startRedis_resume_def demo_env_def)

text \<open>
  C7 as stated fails: when the two \<^verbatim>\<open>connect\<close> calls have resolved, the flag is true
  and the \<^verbatim>\<open>subscribe\<close> call is still pending.
\<close>

theorem flag_true_while_subscribe_pending:
  "redisAvailable (state_of (run demo_env [RedisSettled True, RedisSettled True]
      (loaded demo_env (\<lambda>ws. demo_socket False) demo_spool))) \<and>
   redis (state_of (run demo_env [RedisSettled True, RedisSettled True]
      (loaded demo_env (\<lambda>ws. demo_socket False) demo_spool))) = Subscribing"
  by (simp add: loaded_def startRedis_def startRedis_resume_def demo_env_def)

section \<open>What the sockets receive\<close>

lemma push_simps [simp]:
  "push [] sock = sock" "push ms (push ks sock) = push (ks @ ms) sock"
  "readyState (push ms sock) = readyState sock" "send_throws (push ms sock) = send_throws sock"
  "delivered (push ms sock) = delivered sock @ ms" "accepts (push ms sock) = accepts sock"
  by (simp_all add: push_def accepts_def)

lemma broadcast_loop_sockets:
  "sockets (snd (snd (broadcast_loop message cs (sent, failed, s)))) ws =
     (if accepts (sockets s ws)
      then push (replicate (count_list cs ws) message) (sockets s ws)
      else sockets s ws)"
proof (induction cs arbitrary: sent failed s)
  case Nil
  show ?case by simp
next
  case (Cons c cs)
  show ?case
  proof (cases "accepts (sockets s c)")
    case False
    then have "broadcast_loop message (c # cs) (sent, failed, s) =
        broadcast_loop message cs (sent, failed + 1, s\<lparr>console := console s @ [SendFailed c]\<rparr>)
      \<or> broadcast_loop message (c # cs) (sent, failed, s) =
        broadcast_loop message cs (sent, failed + 1,
          s\<lparr>console := console s @ [ClientNotReady c (readyState (sockets s c))]\<rparr>)"
      by (auto simp: accepts_def ws_send_def)
    then show ?thesis using False Cons.IH by auto
  next
    case True
    let ?s1 = "s\<lparr>sockets := (sockets s)(c := push [message] (sockets s c))\<rparr>"
    from True have "broadcast_loop message (c # cs) (sent, failed, s) =
        broadcast_loop message cs (sent + 1, failed, ?s1)"
      by (simp add: accepts_def ws_send_def push_def)
    then show ?thesis using True Cons.IH [of "sent + 1" failed ?s1]
      by (simp add: replicate_append_same)
  qed
qed


lemma broadcast_sockets:
  "sockets (state_of (broadcast env event s)) ws =
     (if template_event event = Inr () \<and> accepts (sockets s ws)
      then push (replicate (count_list (clients s) ws) (JSON_stringify env event)) (sockets s ws)
      else sockets s ws)"
proof (cases "template_event event")
  case (Inl e)
  then show ?thesis by (simp add: broadcast_def)
next
  case (Inr u)
  obtain n k s1 where
    l: "broadcast_loop (JSON_stringify env event) (clients s) (0, 0, s) = (n, k, s1)"
    by (cases "broadcast_loop (JSON_stringify env event) (clients s) (0, 0, s)") auto
  from broadcast_loop_sockets [of "JSON_stringify env event" "clients s" 0 0 s ws] l
  have "sockets s1 ws =
     (if accepts (sockets s ws)
      then push (replicate (count_list (clients s) ws) (JSON_stringify env event)) (sockets s ws)
      else sockets s ws)" by simp
  with Inr l show ?thesis by (simp add: broadcast_def)
qed

lemma broadcast_delivered:
  "prefix (delivered (sockets s ws)) (delivered (sockets (state_of (broadcast env event s)) ws))"
  by (simp add: broadcast_sockets)

lemma broadcast_loop_railway_delivered:
  "prefix (delivered (sockets s ws))
     (delivered (sockets (state_of (broadcast_loop_railway message cs s)) ws))"
proof (induction cs arbitrary: s)
  case Nil
  show ?case by simp
next
  case (Cons c cs)
  show ?case
  proof (cases "accepts (sockets s c)")
    case False
    then show ?thesis using Cons [of s] by (auto simp: ws_send_def accepts_def)
  next
    case True
    let ?s1 = "s\<lparr>sockets := (sockets s)(c := push [message] (sockets s c))\<rparr>"
    have "prefix (delivered (sockets s ws)) (delivered (sockets ?s1 ws))" by simp
    also have "prefix \<dots> (delivered (sockets (state_of (broadcast_loop_railway message cs ?s1)) ws))"
      by (rule Cons)
    finally show ?thesis using True by (simp add: ws_send_def accepts_def push_def)
  qed
qed

lemma broadcast_railway_delivered:
  "prefix (delivered (sockets s ws))
     (delivered (sockets (state_of (broadcast_railway env event s)) ws))"
  unfolding broadcast_railway_def by (rule broadcast_loop_railway_delivered)

lemma on_message_delivered:
  "prefix (delivered (sockets s ws)) (delivered (sockets (on_message env m s) ws))"
proof (cases "JSON_parse env m")
  case None
  then show ?thesis by (simp add: on_message_def)
next
  case (Some event)
  show ?thesis
  proof (cases "get_event event")
    case (Inl e)
    with Some show ?thesis by (simp add: on_message_def)
  next
    case (Inr v)
    with Some broadcast_delivered [of s ws env event] show ?thesis
      by (cases "broadcast env event s") (simp_all add: on_message_def)
  qed
qed

lemma on_message_railway_delivered:
  "prefix (delivered (sockets s ws)) (delivered (sockets (on_message_railway env m s) ws))"
proof (cases "JSON_parse env m")
  case None
  then show ?thesis by (simp add: on_message_railway_def)
next
  case (Some event)
  show ?thesis
  proof (cases "template_event event")
    case (Inl e)
    with Some show ?thesis by (simp add: on_message_railway_def)
  next
    case (Inr v)
    with Some broadcast_railway_delivered [of s ws env event] show ?thesis
      by (cases "broadcast_railway env event s") (simp_all add: on_message_railway_def)
  qed
qed

lemma consume_delivered:
  "prefix (delivered (sockets s ws)) (delivered (sockets (consume env now file s) ws))"
proof -
  let ?s2 = "s\<lparr>fs_trace := fs_trace s @ [Stat file, ReadFile file]\<rparr>"
  have b: "prefix (delivered (sockets s ws)) (delivered (sockets (state_of (broadcast env event ?s2)) ws))"
    for event using broadcast_delivered [of ?s2 ws env event] by simp
  have c: "prefix (delivered (sockets s ws)) (delivered (sockets s3 ws))"
    if "broadcast env event ?s2 = Normal s3 \<or> broadcast env event ?s2 = Throws e s3" for event s3 e
    using b [of event] that by auto
  show ?thesis
    unfolding consume_def Let_def file_error_def
    by (auto split: sum.splits option.splits outcome.splits intro: c)
qed

lemma scan_delivered:
  "prefix (delivered (sockets s ws)) (delivered (sockets (scan env now files s) ws))"
proof (induction files arbitrary: s)
  case Nil
  show ?case by simp
next
  case (Cons f files)
  have "prefix (delivered (sockets s ws)) (delivered (sockets (scan_file env now f s) ws))"
    using consume_delivered [of "s\<lparr>processedFiles := insert f (processedFiles s)\<rparr>" ws env now f]
    by (simp add: scan_file_def)
  also have "prefix \<dots> (delivered (sockets (scan env now files (scan_file env now f s)) ws))"
    by (rule Cons.IH)
  finally show ?case by simp
qed

lemma poll_delivered:
  "prefix (delivered (sockets s ws)) (delivered (sockets (poll env now s) ws))"
  using scan_delivered [of "s\<lparr>fs_trace := fs_trace s @ [Readdir]\<rparr>" ws env now]
  by (simp add: poll_def Let_def split: sum.splits)

lemma on_connection_delivered:
  "prefix (delivered (sockets s ws)) (delivered (sockets (state_of (on_connection env c s)) ws))"
  by (simp add: on_connection_def Let_def ws_send_def)

lemma step_delivered:
  "prefix (delivered (sockets s ws)) (delivered (sockets (state_of (step env e s)) ws))"
  by (cases e)
     (simp_all add: on_connection_delivered on_close_def on_error_def set_socket_def
        startRedis_resume_def redis_catch_def on_redis_error_def on_message_delivered
        poll_delivered Let_def split: redis_phase.splits)

lemma step_railway_delivered:
  "prefix (delivered (sockets s ws)) (delivered (sockets (state_of (step_railway env e s)) ws))"
  by (cases e)
     (simp_all add: on_connection_delivered on_close_def on_error_def set_socket_def
        on_message_railway_delivered Let_def)

lemma run_delivered:
  "prefix (delivered (sockets s ws)) (delivered (sockets (state_of (run env evs s)) ws))"
proof (induction evs arbitrary: s)
  case Nil
  show ?case by simp
next
  case (Cons e evs)
  show ?case
  proof (cases "step env e s")
    case (Normal s1)
    have "prefix (delivered (sockets s ws)) (delivered (sockets s1 ws))"
      using step_delivered [of s ws env e] Normal by simp
    also have "prefix \<dots> (delivered (sockets (state_of (run env evs s1)) ws))"
      by (rule Cons.IH)
    finally show ?thesis using Normal by simp
  next
    case (Throws err s1)
    with step_delivered [of s ws env e] show ?thesis by simp
  qed
qed

lemma run_railway_delivered:
  "prefix (delivered (sockets s ws)) (delivered (sockets (state_of (run_railway env evs s)) ws))"
proof (induction evs arbitrary: s)
  case Nil
  show ?case by simp
next
  case (Cons e evs)
  show ?case
  proof (cases "step_railway env e s")
    case (Normal s1)
    have "prefix (delivered (sockets s ws)) (delivered (sockets s1 ws))"
      using step_railway_delivered [of s ws env e] Normal by simp
    also have "prefix \<dots> (delivered (sockets (state_of (run_railway env evs s1)) ws))"
      by (rule Cons.IH)
    finally show ?thesis using Normal by simp
  next
    case (Throws err s1)
    with step_railway_delivered [of s ws env e] show ?thesis by simp
  qed
qed

section \<open>The first message\<close>

lemmas demo_defs = demo_server_def demo_env_def demo_socket_def demo_spool_def demo_file_def
  demo_event_def demo_text_def connected_envelope_def

lemmas code_defs = on_connection_def on_close_def on_error_def set_socket_def Let_def
  ws_send_def Set_add_def Set_delete_def poll_def readdirSync_def is_event_file_def
  suffix_to_prefix scan_file_def consume_def statSync_def readFileSync_def unlinkSync_def
  broadcast_def broadcast_railway_def template_event_def file_error_def accepts_def

lemma on_connection_returns:
  "\<not> send_throws (sockets s ws) \<Longrightarrow> \<exists>s1. on_connection env ws s = Normal s1"
  by (simp add: on_connection_def Let_def ws_send_def)

lemma on_connection_Normal:
  assumes "on_connection env ws s = Normal s1"
  shows "\<not> send_throws (sockets s ws) \<and> ws \<in> set (clients s1) \<and> ws \<in> listeners s1 \<and>
     sockets s1 ws = push [JSON_stringify env connected_envelope] (sockets s ws)"
  using assms
  by (auto simp: on_connection_def Let_def ws_send_def Set_add_def push_def split: if_splits)

lemma on_connection_Throws:
  assumes "on_connection env ws s = Throws e s1"
  shows "send_throws (sockets s ws) \<and> e = SendError \<and> sockets s1 = sockets s"
  using assms
  by (auto simp: on_connection_def Let_def ws_send_def split: if_splits)

text \<open>
  C8. The \<^verbatim>\<open>connection\<close> handler runs for a socket to which nothing has been sent (the
  handshake has just succeeded). Unless \<^verbatim>\<open>send\<close> raises on that socket, the handler
  returns; the socket is then registered and holds exactly one frame, the text of the
  envelope
  \<^verbatim>\<open>{event: 'connected', payload: {message: 'Connected to tournament WebSocket server'}}\<close>,
  and whatever happens later in either file's event loop, that frame stays the first one
  the client receives. When the \<^verbatim>\<open>send\<close> of that frame raises, the exception leaves the
  handler, the event loop ends there, and nothing has been sent to the client.
\<close>

theorem connected_is_first_message:
  assumes "delivered (sockets s ws) = []"
  shows "(\<not> send_throws (sockets s ws) \<longrightarrow> (\<exists>s1. on_connection env ws s = Normal s1)) \<and>
     (case on_connection env ws s of
        Normal s1 \<Rightarrow>
          ws \<in> set (clients s1) \<and>
          delivered (sockets s1 ws) =
            [JSON_stringify env
               (JObj [(''event'', JStr ''connected''),
                      (''payload'', JObj [(''message'',
                         JStr ''Connected to tournament WebSocket server'')])])] \<and>
          (\<exists>later. delivered (sockets (state_of (run env evs s1)) ws) =
             JSON_stringify env
               (JObj [(''event'', JStr ''connected''),
                      (''payload'', JObj [(''message'',
                         JStr ''Connected to tournament WebSocket server'')])]) # later) \<and>
          (\<exists>later. delivered (sockets (state_of (run_railway env evs s1)) ws) =
             JSON_stringify env
               (JObj [(''event'', JStr ''connected''),
                      (''payload'', JObj [(''message'',
                         JStr ''Connected to tournament WebSocket server'')])]) # later)
      | Throws e s1 \<Rightarrow>
          send_throws (sockets s ws) \<and>
          delivered (sockets s1 ws) = [] \<and>
          run env (Connection ws # evs) s = Throws e s1 \<and>
          run_railway env (Connection ws # evs) s = Throws e s1)"
proof -
  let ?greeting = "JSON_stringify env
               (JObj [(''event'', JStr ''connected''),
                      (''payload'', JObj [(''message'',
                         JStr ''Connected to tournament WebSocket server'')])])"
  have g: "JSON_stringify env connected_envelope = ?greeting"
    by (simp add: connected_envelope_def)
  have returns: "\<not> send_throws (sockets s ws) \<longrightarrow> (\<exists>s1. on_connection env ws s = Normal s1)"
    using on_connection_returns by blast
  show ?thesis
  proof (cases "on_connection env ws s")
    case (Normal s1)
    from on_connection_Normal [OF Normal] assms g
    have reg: "ws \<in> set (clients s1)" and first: "delivered (sockets s1 ws) = [?greeting]"
      by simp_all
    from run_delivered [of s1 ws env evs] first
    have a: "\<exists>later. delivered (sockets (state_of (run env evs s1)) ws) = ?greeting # later"
      by (auto simp: prefix_def)
    from run_railway_delivered [of s1 ws env evs] first
    have b: "\<exists>later. delivered (sockets (state_of (run_railway env evs s1)) ws) = ?greeting # later"
      by (auto simp: prefix_def)
    from Normal returns reg first a b show ?thesis by simp
  next
    case (Throws e s1)
    from on_connection_Throws [OF Throws] assms
    have "send_throws (sockets s ws)" and "delivered (sockets s1 ws) = []" by simp_all
    with Throws returns show ?thesis by simp
  qed
qed

theorem connected_is_first_message_witness:
  "delivered (sockets demo_server 2) = [] \<and> \<not> send_throws (sockets demo_server 2) \<and>
   clients (state_of (on_connection demo_wire_env 2 demo_server)) = [0, 1, 2] \<and>
   delivered (sockets (state_of (on_connection demo_wire_env 2 demo_server)) 2) =
     [connected_text] \<and>
   delivered (sockets (state_of (run demo_wire_env [Tick 5000]
      (state_of (on_connection demo_wire_env 2 demo_server)))) 2) =
     [connected_text, demo_text] \<and>
   (\<exists>later. delivered (sockets (state_of (run_railway demo_wire_env [Tick 5000]
      (state_of (on_connection demo_wire_env 2 demo_server)))) 2) = connected_text # later) \<and>
   on_connection demo_wire_env 0 demo_server =
     Throws SendError (demo_server\<lparr>console := [ClientConnected 2]\<rparr>)"
proof -
  have h0: "delivered (sockets demo_server 2) = []" "\<not> send_throws (sockets demo_server 2)"
    by (simp_all add: demo_defs)
  have g: "JSON_stringify demo_wire_env
      (JObj [(''event'', JStr ''connected''),
             (''payload'', JObj [(''message'',
                JStr ''Connected to tournament WebSocket server'')])]) = connected_text"
    by (simp add: demo_wire_env_def)
  note T = connected_is_first_message [OF h0(1), of demo_wire_env "[Tick 5000]"]
  from T h0(2) obtain s1 where n: "on_connection demo_wire_env 2 demo_server = Normal s1"
    by blast
  then have s1: "state_of (on_connection demo_wire_env 2 demo_server) = s1" by simp
  from T have a: "delivered (sockets s1 2) = [connected_text]"
    and b: "\<exists>later. delivered (sockets (state_of (run_railway demo_wire_env [Tick 5000] s1)) 2) =
        connected_text # later"
    unfolding n g by simp_all
  have c: "clients (state_of (on_connection demo_wire_env 2 demo_server)) = [0, 1, 2]"
    by (simp add: code_defs demo_defs demo_wire_env_def)
  have d: "delivered (sockets (state_of (run demo_wire_env [Tick 5000]
      (state_of (on_connection demo_wire_env 2 demo_server)))) 2) = [connected_text, demo_text]"
    by (simp add: code_defs demo_defs demo_wire_env_def)
  have e: "on_connection demo_wire_env 0 demo_server =
     Throws SendError (demo_server\<lparr>console := [ClientConnected 2]\<rparr>)"
    by (simp add: code_defs demo_defs demo_wire_env_def)
  from h0 a b c d e show ?thesis unfolding s1 by blast
qed

section \<open>Connections whose send fails\<close>

lemma count_list_distinct: "distinct xs \<Longrightarrow> x \<in> set xs \<Longrightarrow> count_list xs x = 1"
  by (induction xs) (auto simp: count_list_0_iff)

lemma broadcast_clients: "clients (state_of (broadcast env event s)) = clients s"
  using broadcast_frame [of s env event] by (simp add: only_sockets_console_def)

lemma broadcast_railway_clients: "clients (state_of (broadcast_railway env event s)) = clients s"
  using broadcast_railway_frame [of s env event] by (simp add: only_sockets_console_def)

lemma broadcast_all_clients: "clients (broadcast_all env events s) = clients s"
  by (induction events arbitrary: s) (simp_all add: broadcast_clients)

lemma broadcast_unregistered:
  "ws \<notin> set (clients s) \<Longrightarrow> sockets (state_of (broadcast env event s)) ws = sockets s ws"
  by (simp add: broadcast_sockets count_list_0_iff)

lemma broadcast_all_unregistered:
  "ws \<notin> set (clients s) \<Longrightarrow> sockets (broadcast_all env events s) ws = sockets s ws"
  by (induction events arbitrary: s) (simp_all add: broadcast_unregistered broadcast_clients)

lemma broadcast_failing:
  "\<not> accepts (sockets s ws) \<Longrightarrow> sockets (state_of (broadcast env event s)) ws = sockets s ws"
  by (simp add: broadcast_sockets)

lemma broadcast_loop_railway_untouched:
  "\<not> accepts (sockets s ws) \<or> ws \<notin> set cs \<Longrightarrow>
     sockets (state_of (broadcast_loop_railway message cs s)) ws = sockets s ws"
proof (induction cs arbitrary: s)
  case Nil
  show ?case by simp
next
  case (Cons c cs)
  show ?case
  proof (cases "accepts (sockets s c)")
    case False
    then have "broadcast_loop_railway message (c # cs) s = broadcast_loop_railway message cs s
        \<or> broadcast_loop_railway message (c # cs) s = Throws SendError s"
      by (auto simp: accepts_def ws_send_def)
    then show ?thesis using Cons.IH [of s] Cons.prems by auto
  next
    case True
    let ?s1 = "s\<lparr>sockets := (sockets s)(c := push [message] (sockets s c))\<rparr>"
    from True have eq: "broadcast_loop_railway message (c # cs) s =
        broadcast_loop_railway message cs ?s1"
      by (simp add: accepts_def ws_send_def push_def)
    from True Cons.prems have ne: "ws \<noteq> c" by auto
    then have same: "sockets ?s1 ws = sockets s ws" by simp
    have "\<not> accepts (sockets ?s1 ws) \<or> ws \<notin> set cs" using Cons.prems same by auto
    then have "sockets (state_of (broadcast_loop_railway message cs ?s1)) ws = sockets ?s1 ws"
      by (rule Cons.IH)
    with eq same show ?thesis by simp
  qed
qed

lemma broadcast_railway_failing:
  "\<not> accepts (sockets s ws) \<Longrightarrow>
     sockets (state_of (broadcast_railway env event s)) ws = sockets s ws"
  by (simp add: broadcast_railway_def broadcast_loop_railway_untouched)

lemma broadcast_railway_unregistered:
  "ws \<notin> set (clients s) \<Longrightarrow>
     sockets (state_of (broadcast_railway env event s)) ws = sockets s ws"
  by (simp add: broadcast_railway_def broadcast_loop_railway_untouched)

lemma broadcast_all_railway_unregistered:
  "ws \<notin> set (clients s) \<Longrightarrow> sockets (broadcast_all_railway env events s) ws = sockets s ws"
  by (induction events arbitrary: s)
     (simp_all add: broadcast_railway_unregistered broadcast_railway_clients)

lemma on_message_unregistered:
  assumes "ws \<notin> set (clients s)"
  shows "sockets (on_message env m s) ws = sockets s ws"
proof (cases "JSON_parse env m")
  case None
  then show ?thesis by (simp add: on_message_def)
next
  case (Some event)
  show ?thesis
  proof (cases "get_event event")
    case (Inl e)
    with Some show ?thesis by (simp add: on_message_def)
  next
    case (Inr v)
    with Some broadcast_unregistered [OF assms, of env event] show ?thesis
      by (cases "broadcast env event s") (simp_all add: on_message_def)
  qed
qed

lemma on_message_railway_unregistered:
  assumes "ws \<notin> set (clients s)"
  shows "sockets (on_message_railway env m s) ws = sockets s ws"
proof (cases "JSON_parse env m")
  case None
  then show ?thesis by (simp add: on_message_railway_def)
next
  case (Some event)
  show ?thesis
  proof (cases "template_event event")
    case (Inl e)
    with Some show ?thesis by (simp add: on_message_railway_def)
  next
    case (Inr v)
    with Some broadcast_railway_unregistered [OF assms, of env event] show ?thesis
      by (cases "broadcast_railway env event s") (simp_all add: on_message_railway_def)
  qed
qed

lemma consume_unregistered:
  assumes "ws \<notin> set (clients s)"
  shows "sockets (consume env now f s) ws = sockets s ws"
proof -
  let ?s2 = "s\<lparr>fs_trace := fs_trace s @ [Stat f, ReadFile f]\<rparr>"
  have b: "sockets (state_of (broadcast env event ?s2)) ws = sockets s ws" for event
    using broadcast_unregistered [of ws ?s2 env event] assms by simp
  have c: "sockets s3 ws = sockets s ws"
    if "broadcast env event ?s2 = Normal s3 \<or> broadcast env event ?s2 = Throws e s3" for event s3 e
    using b [of event] that by auto
  show ?thesis
    unfolding consume_def Let_def file_error_def
    by (auto split: sum.splits option.splits outcome.splits intro: c)
qed

lemma scan_unregistered:
  "ws \<notin> set (clients s) \<Longrightarrow> sockets (scan env now files s) ws = sockets s ws"
proof (induction files arbitrary: s)
  case Nil
  show ?case by simp
next
  case (Cons f files)
  have a: "sockets (scan_file env now f s) ws = sockets s ws"
    using consume_unregistered [of ws "s\<lparr>processedFiles := insert f (processedFiles s)\<rparr>" env now f]
      Cons.prems by (simp add: scan_file_def)
  have "clients (scan_file env now f s) = clients s"
    by (simp add: scan_file_def consume_clients)
  with Cons.prems have "ws \<notin> set (clients (scan_file env now f s))" by simp
  then have "sockets (scan env now files (scan_file env now f s)) ws =
      sockets (scan_file env now f s) ws" by (rule Cons.IH)
  with a show ?case by simp
qed

lemma poll_unregistered:
  "ws \<notin> set (clients s) \<Longrightarrow> sockets (poll env now s) ws = sockets s ws"
  using scan_unregistered [of ws "s\<lparr>fs_trace := fs_trace s @ [Readdir]\<rparr>" env now]
  by (simp add: poll_def Let_def split: sum.splits)

lemma step_unregistered:
  assumes "ws \<notin> set (clients s)" and "e \<noteq> Connection ws"
  shows "ws \<notin> set (clients (state_of (step env e s))) \<and>
     delivered (sockets (state_of (step env e s)) ws) = delivered (sockets s ws)"
proof (cases e)
  case (Connection c)
  with assms have "c \<noteq> ws" by auto
  with Connection assms(1) show ?thesis
    by (auto simp: on_connection_def Let_def Set_add_def ws_send_def)
next
  case (Tick now)
  with assms(1) show ?thesis by (simp add: poll_clients poll_unregistered)
next
  case (RedisMessage m)
  with assms(1) on_message_frame [of s env m] show ?thesis
    by (simp add: only_sockets_console_def on_message_unregistered)
qed (use assms(1) in \<open>simp_all add: on_close_def on_error_def set_socket_def Let_def
       Set_delete_def startRedis_resume_def redis_catch_def on_redis_error_def
       split: redis_phase.splits\<close>)

lemma step_railway_unregistered:
  assumes "ws \<notin> set (clients s)" and "e \<noteq> Connection ws"
  shows "ws \<notin> set (clients (state_of (step_railway env e s))) \<and>
     delivered (sockets (state_of (step_railway env e s)) ws) = delivered (sockets s ws)"
proof (cases e)
  case (Connection c)
  with assms have "c \<noteq> ws" by auto
  with Connection assms(1) show ?thesis
    by (auto simp: on_connection_def Let_def Set_add_def ws_send_def)
next
  case (RedisMessage m)
  with assms(1) on_message_railway_frame [of s env m] show ?thesis
    by (simp add: only_sockets_console_def on_message_railway_unregistered)
qed (use assms(1) in \<open>simp_all add: on_close_def on_error_def set_socket_def Let_def
       Set_delete_def\<close>)

lemma run_unregistered:
  "ws \<notin> set (clients s) \<Longrightarrow> Connection ws \<notin> set evs \<Longrightarrow>
     delivered (sockets (state_of (run env evs s)) ws) = delivered (sockets s ws)"
proof (induction evs arbitrary: s)
  case Nil
  show ?case by simp
next
  case (Cons e evs)
  from Cons.prems have ne: "e \<noteq> Connection ws" and rest: "Connection ws \<notin> set evs" by auto
  note st = step_unregistered [OF Cons.prems(1) ne, of env]
  show ?case
  proof (cases "step env e s")
    case (Normal s1)
    with st have "ws \<notin> set (clients s1)" and d: "delivered (sockets s1 ws) = delivered (sockets s ws)"
      by simp_all
    from Cons.IH [OF this(1) rest] d Normal show ?thesis by simp
  next
    case (Throws err s1)
    with st show ?thesis by simp
  qed
qed

lemma run_railway_unregistered:
  "ws \<notin> set (clients s) \<Longrightarrow> Connection ws \<notin> set evs \<Longrightarrow>
     delivered (sockets (state_of (run_railway env evs s)) ws) = delivered (sockets s ws)"
proof (induction evs arbitrary: s)
  case Nil
  show ?case by simp
next
  case (Cons e evs)
  from Cons.prems have ne: "e \<noteq> Connection ws" and rest: "Connection ws \<notin> set evs" by auto
  note st = step_railway_unregistered [OF Cons.prems(1) ne, of env]
  show ?case
  proof (cases "step_railway env e s")
    case (Normal s1)
    with st have "ws \<notin> set (clients s1)" and d: "delivered (sockets s1 ws) = delivered (sockets s ws)"
      by simp_all
    from Cons.IH [OF this(1) rest] d Normal show ?thesis by simp
  next
    case (Throws err s1)
    with st show ?thesis by simp
  qed
qed


text \<open>
  C3, as the code has it. When the send to a registered connection fails in a \<open>broadcast\<close>
  call of either file (its socket is not \<open>OPEN\<close>, or \<^verbatim>\<open>send\<close> raises), the call leaves
  the connection in the registry and gives it nothing. The connection leaves the registry
  when its \<^verbatim>\<open>close\<close> or \<^verbatim>\<open>error\<close> handler runs (\<open>remove\<close>). From then on it receives
  no envelope: not from any later sequence of \<open>broadcast\<close> calls, even when its socket has
  become \<open>OPEN\<close> and accepts frames again, and not in any later run of either event loop
  in which the connection is not accepted a second time.
\<close>

theorem failing_connection_stays_until_closed:
  assumes "ws \<in> set (clients s)" and "\<not> accepts (sockets s ws)"
    and "remove = on_close ws \<or> remove = on_error ws"
    and "Connection ws \<notin> set evs"
  shows "ws \<in> set (clients (state_of (broadcast env event s))) \<and>
     sockets (state_of (broadcast env event s)) ws = sockets s ws \<and>
     ws \<in> set (clients (state_of (broadcast_railway env event s))) \<and>
     sockets (state_of (broadcast_railway env event s)) ws = sockets s ws \<and>
     ws \<notin> set (clients (remove (state_of (broadcast env event s)))) \<and>
     ws \<notin> set (clients (remove (state_of (broadcast_railway env event s)))) \<and>
     delivered (sockets (broadcast_all env events
        (set_socket ws r t (remove (state_of (broadcast env event s))))) ws) =
       delivered (sockets s ws) \<and>
     delivered (sockets (broadcast_all_railway env events
        (set_socket ws r t (remove (state_of (broadcast_railway env event s))))) ws) =
       delivered (sockets s ws) \<and>
     delivered (sockets (state_of (run env evs
        (remove (state_of (broadcast env event s))))) ws) = delivered (sockets s ws) \<and>
     delivered (sockets (state_of (run_railway env evs
        (remove (state_of (broadcast_railway env event s))))) ws) = delivered (sockets s ws)"
proof -
  let ?s1 = "state_of (broadcast env event s)"
  let ?s2 = "state_of (broadcast_railway env event s)"
  have gone: "ws \<notin> set (clients (remove x))" and kept: "sockets (remove x) ws = sockets x ws" for x
    using assms(3) by (auto simp: on_close_def on_error_def Let_def Set_delete_def)
  have gone': "ws \<notin> set (clients (set_socket ws r t (remove x)))"
    and kept': "delivered (sockets (set_socket ws r t (remove x)) ws) = delivered (sockets x ws)" for x
    using gone [of x] kept [of x] by (simp_all add: set_socket_def)
  have a1: "ws \<in> set (clients ?s1)" using assms(1) by (simp add: broadcast_clients)
  have a2: "ws \<in> set (clients ?s2)" using assms(1) by (simp add: broadcast_railway_clients)
  have b1: "sockets ?s1 ws = sockets s ws" using assms(2) by (rule broadcast_failing)
  have b2: "sockets ?s2 ws = sockets s ws" using assms(2) by (rule broadcast_railway_failing)
  have c1: "delivered (sockets (broadcast_all env events (set_socket ws r t (remove ?s1))) ws) =
      delivered (sockets s ws)"
    using broadcast_all_unregistered [OF gone', of env events ?s1] kept' [of ?s1] b1 by simp
  have c2: "delivered (sockets (broadcast_all_railway env events (set_socket ws r t (remove ?s2))) ws) =
      delivered (sockets s ws)"
    using broadcast_all_railway_unregistered [OF gone', of env events ?s2] kept' [of ?s2] b2 by simp
  have d1: "delivered (sockets (state_of (run env evs (remove ?s1))) ws) = delivered (sockets s ws)"
    using run_unregistered [OF gone assms(4), of env ?s1] kept [of ?s1] b1 by simp
  have d2: "delivered (sockets (state_of (run_railway env evs (remove ?s2))) ws) =
      delivered (sockets s ws)"
    using run_railway_unregistered [OF gone assms(4), of env ?s2] kept [of ?s2] b2 by simp
  from a1 a2 b1 b2 gone [of ?s1] gone [of ?s2] c1 c2 d1 d2 show ?thesis by blast
qed

theorem failing_connection_stays_until_closed_witness:
  "0 \<in> set (clients demo_server) \<and> send_throws (sockets demo_server 0) \<and>
   clients (state_of (broadcast demo_env demo_event demo_server)) = [0, 1] \<and>
   clients (on_close 0 (state_of (broadcast demo_env demo_event demo_server))) = [1] \<and>
   accepts (sockets (set_socket 0 OPEN False
      (on_close 0 (state_of (broadcast demo_env demo_event demo_server)))) 0) \<and>
   delivered (sockets (broadcast_all demo_env [demo_event, demo_event]
      (set_socket 0 OPEN False
        (on_close 0 (state_of (broadcast demo_env demo_event demo_server))))) 0) = [] \<and>
   delivered (sockets (broadcast_all demo_env [demo_event, demo_event]
      (set_socket 0 OPEN False
        (on_close 0 (state_of (broadcast demo_env demo_event demo_server))))) 1) =
     [demo_text, demo_text, demo_text] \<and>
   delivered (sockets (broadcast_all_railway demo_env [demo_event, demo_event]
      (set_socket 0 OPEN False
        (on_close 0 (state_of (broadcast_railway demo_env demo_event demo_server))))) 0) = [] \<and>
   delivered (sockets (broadcast_all_railway demo_env [demo_event, demo_event]
      (set_socket 0 OPEN False
        (on_close 0 (state_of (broadcast_railway demo_env demo_event demo_server))))) 1) =
     [demo_text, demo_text] \<and>
   delivered (sockets (state_of (run demo_env [SocketState 0 OPEN False, Tick 5000]
      (on_close 0 (state_of (broadcast demo_env demo_event demo_server))))) 0) = [] \<and>
   delivered (sockets (state_of (run demo_env [SocketState 0 OPEN False, Tick 5000]
      (on_close 0 (state_of (broadcast demo_env demo_event demo_server))))) 1) =
     [demo_text, demo_text]"
proof -
  have h1: "0 \<in> set (clients demo_server)" by (simp add: demo_defs)
  have h2: "\<not> accepts (sockets demo_server 0)" by (simp add: demo_defs accepts_def)
  have h3: "on_close 0 = on_close 0 \<or> on_close 0 = on_error 0" by simp
  have h4: "Connection 0 \<notin> set [SocketState 0 OPEN False, Tick 5000]" by simp
  have e: "delivered (sockets demo_server 0) = []" "send_throws (sockets demo_server 0)"
    by (simp_all add: demo_defs)
  note T = failing_connection_stays_until_closed [OF h1 h2 h3 h4,
      of demo_env demo_event "[demo_event, demo_event]" OPEN False]
  have a: "clients (state_of (broadcast demo_env demo_event demo_server)) = [0, 1]"
    "clients (on_close 0 (state_of (broadcast demo_env demo_event demo_server))) = [1]"
    "accepts (sockets (set_socket 0 OPEN False
      (on_close 0 (state_of (broadcast demo_env demo_event demo_server)))) 0)"
    by (simp_all add: code_defs demo_defs)
  have b: "delivered (sockets (broadcast_all demo_env [demo_event, demo_event]
      (set_socket 0 OPEN False
        (on_close 0 (state_of (broadcast demo_env demo_event demo_server))))) 1) =
     [demo_text, demo_text, demo_text]"
    "delivered (sockets (broadcast_all_railway demo_env [demo_event, demo_event]
      (set_socket 0 OPEN False
        (on_close 0 (state_of (broadcast_railway demo_env demo_event demo_server))))) 1) =
     [demo_text, demo_text]"
    "delivered (sockets (state_of (run demo_env [SocketState 0 OPEN False, Tick 5000]
      (on_close 0 (state_of (broadcast demo_env demo_event demo_server))))) 1) =
     [demo_text, demo_text]"
    by (simp_all add: code_defs demo_defs)
  have c: "delivered (sockets (broadcast_all demo_env [demo_event, demo_event]
      (set_socket 0 OPEN False
        (on_close 0 (state_of (broadcast demo_env demo_event demo_server))))) 0) = []"
    "delivered (sockets (broadcast_all_railway demo_env [demo_event, demo_event]
      (set_socket 0 OPEN False
        (on_close 0 (state_of (broadcast_railway demo_env demo_event demo_server))))) 0) = []"
    "delivered (sockets (state_of (run demo_env [SocketState 0 OPEN False, Tick 5000]
      (on_close 0 (state_of (broadcast demo_env demo_event demo_server))))) 0) = []"
    using T e(1) by simp_all
  from h1 e(2) a b c show ?thesis by blast
qed

text \<open>
  C3 as stated fails: after a \<open>broadcast\<close> in which \<^verbatim>\<open>send\<close> raised on socket 0, the
  failure is logged and counted, socket 0 is still in the registry, and once its
  \<^verbatim>\<open>send\<close> works again the next \<open>broadcast\<close> call delivers to it.
\<close>

theorem failing_connection_still_registered:
  "0 \<in> set (clients demo_server) \<and> send_throws (sockets demo_server 0) \<and>
   readyState (sockets demo_server 0) = OPEN \<and>
   console (state_of (broadcast demo_env demo_event demo_server)) = [SendFailed 0, BroadcastComplete 1 1 2] \<and>
   0 \<in> set (clients (state_of (broadcast demo_env demo_event demo_server))) \<and>
   delivered (sockets (state_of (broadcast demo_env demo_event
      (set_socket 0 OPEN False (state_of (broadcast demo_env demo_event demo_server))))) 0) =
     [demo_text]"
  by (simp add: code_defs demo_defs)

section \<open>Delivery by broadcast\<close>

lemma template_event_string:
  "map_of kvs ''event'' = Some (JStr name) \<Longrightarrow> template_event (JObj kvs) = Inr ()"
  by (simp add: template_event_def)

lemma broadcast_returns:
  "template_event event = Inr () \<Longrightarrow> \<exists>s'. broadcast env event s = Normal s'"
  by (simp add: broadcast_def split: prod.splits)

lemma broadcast_delivers:
  assumes "template_event event = Inr ()" and "distinct (clients s)"
    and "ws \<in> set (clients s)" and "accepts (sockets s ws)"
  shows "sockets (state_of (broadcast env event s)) ws =
     push [JSON_stringify env event] (sockets s ws)"
  using assms by (simp add: broadcast_sockets count_list_distinct)

text \<open>In websocket-server.js a registered socket that accepts frames receives the
  serialised envelopes of a sequence of \<open>broadcast\<close> calls, in the order of the calls and
  whatever the other sockets do.\<close>

lemma broadcast_all_delivers:
  assumes "list_all (\<lambda>event. template_event event = Inr ()) events"
    and "distinct (clients s)" and "ws \<in> set (clients s)" and "accepts (sockets s ws)"
  shows "sockets (broadcast_all env events s) ws =
     push (map (JSON_stringify env) events) (sockets s ws)"
  using assms
proof (induction events arbitrary: s)
  case Nil
  show ?case by simp
next
  case (Cons event events)
  let ?s1 = "state_of (broadcast env event s)"
  have one: "sockets ?s1 ws = push [JSON_stringify env event] (sockets s ws)"
    using Cons.prems by (simp add: broadcast_delivers)
  have "sockets (broadcast_all env events ?s1) ws =
      push (map (JSON_stringify env) events) (sockets ?s1 ws)"
    using Cons.prems one by (intro Cons.IH) (simp_all add: broadcast_clients)
  with one show ?case by simp
qed

lemma broadcast_loop_railway_sockets:
  assumes "list_all (\<lambda>c. \<not> (readyState (sockets s c) = OPEN \<and> send_throws (sockets s c))) cs"
  shows "\<exists>s'. broadcast_loop_railway message cs s = Normal s' \<and>
     sockets s' = sockets (snd (snd (broadcast_loop message cs (sent, failed, s))))"
  using assms
proof (induction cs arbitrary: s sent failed)
  case Nil
  show ?case by simp
next
  case (Cons c cs)
  show ?case
  proof (cases "accepts (sockets s c)")
    case True
    let ?s1 = "s\<lparr>sockets := (sockets s)(c := push [message] (sockets s c))\<rparr>"
    have "list_all (\<lambda>c. \<not> (readyState (sockets ?s1 c) = OPEN \<and> send_throws (sockets ?s1 c))) cs"
      using Cons.prems by (auto simp: list_all_iff)
    from Cons.IH [OF this, of "sent + 1" failed] True show ?thesis
      by (simp add: accepts_def ws_send_def push_def)
  next
    case False
    with Cons.prems have closed: "readyState (sockets s c) \<noteq> OPEN" by (auto simp: accepts_def)
    let ?s1 = "s\<lparr>console := console s @ [ClientNotReady c (readyState (sockets s c))]\<rparr>"
    have p: "list_all (\<lambda>c. \<not> (readyState (sockets s c) = OPEN \<and> send_throws (sockets s c))) cs"
      using Cons.prems by simp
    have same: "sockets (snd (snd (broadcast_loop message cs (sent, failed + 1, ?s1)))) =
        sockets (snd (snd (broadcast_loop message cs (sent, failed + 1, s))))"
      by (rule ext) (simp add: broadcast_loop_sockets)
    from Cons.IH [OF p, of sent "failed + 1"] closed same show ?thesis by simp
  qed
qed

lemma railway_aborts:
  assumes "clients s = c # rest" and "readyState (sockets s c) = OPEN"
    and "send_throws (sockets s c)"
  shows "broadcast_railway env event s = Throws SendError s"
  using assms by (simp add: broadcast_railway_def ws_send_def)

text \<open>
  C4. A send that fails on one connection is to stay within that connection's iteration,
  so that the connections after it still get the envelope. websocket-server.js does so
  (\<open>broadcast_sockets\<close>: what a socket receives does not depend on the other sockets;
  \<open>broadcast_returns\<close>). The second file does not (\<open>railway_aborts\<close>). Here the registry
  holds sockets 0 and 1, both \<open>OPEN\<close>, and \<^verbatim>\<open>send\<close> raises on socket 0: the \<open>broadcast\<close>
  of the second file is left by that exception and socket 1 receives nothing, while the
  \<open>broadcast\<close> of websocket-server.js catches it, counts it and delivers to socket 1.
\<close>

theorem railway_broadcast_aborts_on_send_failure:
  "clients demo_server = [0, 1] \<and> accepts (sockets demo_server 1) \<and>
   send_throws (sockets demo_server 0) \<and>
   broadcast_railway demo_env demo_event demo_server = Throws SendError demo_server \<and>
   delivered (sockets (state_of (broadcast_railway demo_env demo_event demo_server)) 1) = [] \<and>
   delivered (sockets (state_of (broadcast demo_env demo_event demo_server)) 1) = [demo_text]"
  by (simp add: code_defs demo_defs)

text \<open>
  C1. A registered client whose socket stays \<open>OPEN\<close> and accepts frames is to receive
  exactly the envelopes of the \<open>broadcast\<close> calls, in the order of the calls.
  websocket-server.js does so (\<open>broadcast_all_delivers\<close>). The second file does not: with
  the registry of the example, two \<open>broadcast\<close> calls with distinct envelopes leave
  socket 1, which accepts frames throughout, with nothing, because each call is left at
  socket 0; websocket-server.js delivers both, in the order of the calls.
\<close>

theorem railway_open_client_misses_envelopes:
  "clients demo_server = [0, 1] \<and> accepts (sockets demo_server 1) \<and>
   demo_event \<noteq> connected_envelope \<and>
   accepts (sockets (broadcast_all_railway demo_env [demo_event, connected_envelope] demo_server) 1) \<and>
   delivered (sockets (broadcast_all_railway demo_env [demo_event, connected_envelope] demo_server) 1) = [] \<and>
   delivered (sockets (broadcast_all demo_env [demo_event, connected_envelope] demo_server) 1) =
     [demo_text, ''connected'']"
  by (simp add: code_defs demo_defs)

section \<open>The registry is a Set\<close>

text \<open>The registry never holds a connection twice.\<close>

lemma step_distinct:
  "distinct (clients s) \<Longrightarrow> distinct (clients (state_of (step env e s)))"
proof (cases e)
  case (Tick now)
  then show "distinct (clients s) \<Longrightarrow> ?thesis" by (simp add: poll_clients)
next
  case (RedisMessage m)
  then show "distinct (clients s) \<Longrightarrow> ?thesis"
    using on_message_frame [of s env m] by (simp add: only_sockets_console_def)
qed (simp_all add: on_connection_def Let_def on_close_def on_error_def set_socket_def
       startRedis_resume_def redis_catch_def on_redis_error_def Set_add_def Set_delete_def
       distinct_removeAll split: sum.splits redis_phase.splits)

lemma run_distinct:
  "distinct (clients s) \<Longrightarrow> distinct (clients (state_of (run env evs s)))"
proof (induction evs arbitrary: s)
  case Nil
  then show ?case by simp
next
  case (Cons e evs)
  from Cons.prems have d: "distinct (clients (state_of (step env e s)))" by (rule step_distinct)
  show ?case
  proof (cases "step env e s")
    case (Normal s1)
    with d Cons.IH [of s1] show ?thesis by simp
  next
    case (Throws err s1)
    with d show ?thesis by simp
  qed
qed

lemma loaded_distinct: "distinct (clients (state_of (run env evs (loaded env socks d))))"
  by (rule run_distinct) (simp add: loaded_def startRedis_def redis_catch_def)

section \<open>Files that stay marked\<close>

lemma left_alone_intro:
  "file \<in> processedFiles s' \<Longrightarrow> fs_trace s' = fs_trace s @ ops \<Longrightarrow>
     list_all (\<lambda>op. \<not> touches file op) ops \<Longrightarrow> left_alone file s s'"
  by (simp add: left_alone_def)

lemma left_alone_elim:
  "left_alone file s s' \<Longrightarrow>
     \<exists>ops. fs_trace s' = fs_trace s @ ops \<and> list_all (\<lambda>op. \<not> touches file op) ops"
  by (auto simp: left_alone_def prefix_def)

lemma left_alone_trans:
  assumes "left_alone file s s1" and "left_alone file s1 s2"
  shows "left_alone file s s2"
proof -
  from assms(1) obtain ops where a: "fs_trace s1 = fs_trace s @ ops"
    "list_all (\<lambda>op. \<not> touches file op) ops" using left_alone_elim by blast
  from assms(2) obtain ops' where b: "fs_trace s2 = fs_trace s1 @ ops'"
    "list_all (\<lambda>op. \<not> touches file op) ops'" using left_alone_elim by blast
  from assms(2) have "file \<in> processedFiles s2" by (simp add: left_alone_def)
  moreover from a b have "fs_trace s2 = fs_trace s @ (ops @ ops')" by simp
  moreover from a b have "list_all (\<lambda>op. \<not> touches file op) (ops @ ops')" by simp
  ultimately show ?thesis by (rule left_alone_intro)
qed

lemma consume_fs_trace:
  "fs_trace (consume env now f s) = fs_trace s @ [Stat f] \<or>
   fs_trace (consume env now f s) = fs_trace s @ [Stat f, ReadFile f] \<or>
   fs_trace (consume env now f s) = fs_trace s @ [Stat f, ReadFile f, Unlink f]"
  by (auto simp: consume_def file_error_def Let_def only_sockets_console_def
        split: sum.splits option.splits outcome.splits
        dest!: broadcast_Normal_frame broadcast_Throws_frame)

lemma scan_file_left_alone:
  assumes "file \<in> processedFiles s"
  shows "left_alone file s (scan_file env now f s)"
proof (cases "f \<in> processedFiles s")
  case True
  with assms show ?thesis by (simp add: scan_file_def left_alone_def)
next
  case False
  with assms have ne: "f \<noteq> file" by auto
  let ?s1 = "s\<lparr>processedFiles := insert f (processedFiles s)\<rparr>"
  have s': "scan_file env now f s = consume env now f ?s1" using False by (simp add: scan_file_def)
  have m: "file \<in> processedFiles (consume env now f ?s1)"
    using consume_processedFiles [of env now f ?s1] assms ne by auto
  from consume_fs_trace [of env now f ?s1]
  have "\<exists>ops. fs_trace (consume env now f ?s1) = fs_trace s @ ops \<and>
      list_all (\<lambda>op. \<not> touches file op) ops"
    using ne by auto
  with m s' show ?thesis by (auto intro: left_alone_intro)
qed

lemma scan_left_alone:
  "file \<in> processedFiles s \<Longrightarrow> left_alone file s (scan env now files s)"
proof (induction files arbitrary: s)
  case Nil
  then show ?case by (simp add: left_alone_def)
next
  case (Cons f files)
  have a: "left_alone file s (scan_file env now f s)"
    using Cons.prems by (rule scan_file_left_alone)
  then have "file \<in> processedFiles (scan_file env now f s)" by (simp add: left_alone_def)
  then have "left_alone file (scan_file env now f s) (scan env now files (scan_file env now f s))"
    by (rule Cons.IH)
  with a show ?case by (simp add: left_alone_trans)
qed

lemma poll_left_alone:
  assumes "file \<in> processedFiles s"
  shows "left_alone file s (poll env now s)"
proof (cases "redisAvailable s")
  case True
  with assms show ?thesis by (simp add: poll_def left_alone_def)
next
  case False
  let ?s1 = "s\<lparr>fs_trace := fs_trace s @ [Readdir]\<rparr>"
  have a: "left_alone file s ?s1" using assms by (simp add: left_alone_def)
  show ?thesis
  proof (cases "readdirSync (spool s)")
    case (Inl e)
    with False assms show ?thesis by (simp add: poll_def left_alone_def)
  next
    case (Inr names)
    have "left_alone file ?s1 (scan env now (filter is_event_file names) ?s1)"
      using assms by (intro scan_left_alone) simp
    with a have "left_alone file s (scan env now (filter is_event_file names) ?s1)"
      by (rule left_alone_trans)
    with False Inr show ?thesis by (simp add: poll_def)
  qed
qed

lemma step_left_alone:
  assumes "file \<in> processedFiles s"
  shows "left_alone file s (state_of (step env e s))"
proof (cases e)
  case (Tick now)
  with assms show ?thesis by (simp add: poll_left_alone)
next
  case (RedisMessage m)
  with assms on_message_frame [of s env m] show ?thesis
    by (simp add: only_sockets_console_def left_alone_def)
qed (use assms in \<open>simp_all add: on_connection_def Let_def on_close_def on_error_def
       set_socket_def startRedis_resume_def redis_catch_def on_redis_error_def left_alone_def
       split: sum.splits redis_phase.splits\<close>)

lemma run_left_alone:
  "file \<in> processedFiles s \<Longrightarrow> left_alone file s (state_of (run env evs s))"
proof (induction evs arbitrary: s)
  case Nil
  then show ?case by (simp add: left_alone_def)
next
  case (Cons e evs)
  have a: "left_alone file s (state_of (step env e s))"
    using Cons.prems by (rule step_left_alone)
  show ?case
  proof (cases "step env e s")
    case (Normal s1)
    with a have "file \<in> processedFiles s1" by (simp add: left_alone_def)
    then have "left_alone file s1 (state_of (run env evs s1))" by (rule Cons.IH)
    with a Normal show ?thesis by (auto intro: left_alone_trans)
  next
    case (Throws err s1)
    with a show ?thesis by simp
  qed
qed

lemma broadcast_throws:
  "template_event event = Inl e \<Longrightarrow> broadcast env event s = Throws e s"
  by (simp add: broadcast_def)

lemma template_event_Inl:
  "template_event event = Inl e \<Longrightarrow> get_event event = Inl e \<or> (\<exists>v. get_event event = Inr v)"
  by (cases "get_event event") (auto simp: template_event_def)

lemma scan_file_undecodable:
  assumes "file \<notin> processedFiles s" and "statSync (spool s) file = Inr stats"
    and "\<not> of_int now - mtimeMs stats < 50" and "readFileSync (spool s) file = Inr content"
    and "decode env content = Inl e"
  shows "scan_file env now file s =
     s\<lparr>processedFiles := insert file (processedFiles s),
       fs_trace := fs_trace s @ [Stat file, ReadFile file],
       console := console s @ [FileEventError e]\<rparr>"
proof (cases "JSON_parse env content")
  case None
  with assms show ?thesis by (simp add: scan_file_def consume_def file_error_def decode_def)
next
  case (Some event)
  with assms(5) have t: "template_event event = Inl e"
    by (simp add: decode_def split: sum.splits)
  from template_event_Inl [OF t] show ?thesis
  proof
    assume "get_event event = Inl e"
    with assms Some show ?thesis by (simp add: scan_file_def consume_def file_error_def)
  next
    assume "\<exists>v. get_event event = Inr v"
    then obtain v where "get_event event = Inr v" ..
    with assms Some broadcast_throws [OF t] show ?thesis
      by (simp add: scan_file_def consume_def file_error_def)
  qed
qed

text \<open>
  C5. A spool file that is old enough and readable but does not decode (\<^verbatim>\<open>JSON.parse\<close>
  rejects its text, or the value is \<^verbatim>\<open>null\<close>, or the logging line of \<open>broadcast\<close> raises
  on it): the iteration of the loop marks it, reads it, writes the error to the console
  and does nothing else (no send, no delete); the loop goes on with the remaining files;
  and from then on, through the rest of that scan and every later event, its name stays
  in \<open>processedFiles\<close> and no call to \<^verbatim>\<open>fs\<close> concerns it again.
\<close>

theorem undecodable_file_dropped_once:
  assumes "file \<notin> processedFiles s" and "statSync (spool s) file = Inr stats"
    and "\<not> of_int now - mtimeMs stats < 50" and "readFileSync (spool s) file = Inr content"
    and "decode env content = Inl e"
  shows "scan_file env now file s =
       s\<lparr>processedFiles := insert file (processedFiles s),
         fs_trace := fs_trace s @ [Stat file, ReadFile file],
         console := console s @ [FileEventError e]\<rparr> \<and>
     scan env now (file # files) s = scan env now files (scan_file env now file s) \<and>
     left_alone file (scan_file env now file s)
       (state_of (run env evs (scan env now files (scan_file env now file s))))"
proof -
  let ?s1 = "scan_file env now file s"
  have a: "?s1 = s\<lparr>processedFiles := insert file (processedFiles s),
         fs_trace := fs_trace s @ [Stat file, ReadFile file],
         console := console s @ [FileEventError e]\<rparr>"
    using assms by (rule scan_file_undecodable)
  then have m: "file \<in> processedFiles ?s1" by simp
  then have b: "left_alone file ?s1 (scan env now files ?s1)" by (rule scan_left_alone)
  then have "file \<in> processedFiles (scan env now files ?s1)" by (simp add: left_alone_def)
  then have "left_alone file (scan env now files ?s1)
      (state_of (run env evs (scan env now files ?s1)))" by (rule run_left_alone)
  with b have "left_alone file ?s1 (state_of (run env evs (scan env now files ?s1)))"
    by (rule left_alone_trans)
  with a show ?thesis by simp
qed


theorem undecodable_file_dropped_once_witness:
  "console (scan_file demo_env 5000 ''tournament_07.json'' demo_poisoned) =
     [FileEventError SyntaxError] \<and>
   left_alone ''tournament_07.json'' (scan_file demo_env 5000 ''tournament_07.json'' demo_poisoned)
     (state_of (run demo_env [Tick 6000]
        (scan demo_env 5000 [''tournament_42.json'']
           (scan_file demo_env 5000 ''tournament_07.json'' demo_poisoned)))) \<and>
   fs_trace (state_of (run demo_env [Tick 5000, Tick 6000] demo_poisoned)) =
     [Readdir, Stat ''tournament_07.json'', ReadFile ''tournament_07.json'',
      Stat ''tournament_42.json'', ReadFile ''tournament_42.json'', Unlink ''tournament_42.json'',
      Readdir] \<and>
   delivered (sockets (state_of (run demo_env [Tick 5000, Tick 6000] demo_poisoned)) 1) =
     [demo_text]"
proof -
  have h1: "''tournament_07.json'' \<notin> processedFiles demo_poisoned"
    by (simp add: demo_poisoned_def demo_defs)
  have h2: "statSync (spool demo_poisoned) ''tournament_07.json'' =
      Inr (demo_file\<lparr>raw := ''{not json''\<rparr>)"
    by (simp add: demo_poisoned_def statSync_def)
  have h3: "\<not> of_int 5000 - mtimeMs (demo_file\<lparr>raw := ''{not json''\<rparr>) < 50"
    by (simp add: demo_file_def)
  have h4: "readFileSync (spool demo_poisoned) ''tournament_07.json'' = Inr ''{not json''"
    by (simp add: demo_poisoned_def readFileSync_def demo_file_def)
  have h5: "decode demo_env ''{not json'' = Inl SyntaxError"
    by (simp add: decode_def demo_env_def demo_text_def)
  have t: "fs_trace (state_of (run demo_env [Tick 5000, Tick 6000] demo_poisoned)) =
     [Readdir, Stat ''tournament_07.json'', ReadFile ''tournament_07.json'',
      Stat ''tournament_42.json'', ReadFile ''tournament_42.json'', Unlink ''tournament_42.json'',
      Readdir]"
    by (simp add: demo_poisoned_def code_defs demo_defs)
  have d: "delivered (sockets (state_of (run demo_env [Tick 5000, Tick 6000] demo_poisoned)) 1) =
     [demo_text]"
    by (simp add: demo_poisoned_def code_defs demo_defs)
  have c: "console demo_poisoned = []" by (simp add: demo_poisoned_def demo_server_def)
  note T = undecodable_file_dropped_once [OF h1 h2 h3 h4 h5, of "[''tournament_42.json'']" "[Tick 6000]"]
  have a: "console (scan_file demo_env 5000 ''tournament_07.json'' demo_poisoned) =
       [FileEventError SyntaxError]"
    by (simp add: T [THEN conjunct1] c)
  have b: "left_alone ''tournament_07.json'' (scan_file demo_env 5000 ''tournament_07.json'' demo_poisoned)
     (state_of (run demo_env [Tick 6000]
        (scan demo_env 5000 [''tournament_42.json'']
           (scan_file demo_env 5000 ''tournament_07.json'' demo_poisoned))))"
    by (rule T [THEN conjunct2, THEN conjunct2])
  from a b t d show ?thesis by blast
qed

section \<open>The grace window\<close>

lemma scan_file_young:
  assumes "file \<notin> processedFiles s" and "statSync (spool s) file = Inr stats"
    and "of_int now - mtimeMs stats < 50"
  shows "scan_file env now file s = s\<lparr>fs_trace := fs_trace s @ [Stat file]\<rparr>"
  using assms by (simp add: scan_file_def consume_def)

lemma template_get_event: "template_event event = Inr () \<Longrightarrow> \<exists>v. get_event event = Inr v"
  by (cases "get_event event") (simp_all add: template_event_def)

lemma scan_file_consumes:
  assumes "file \<notin> processedFiles s" and "statSync (spool s) file = Inr stats"
    and "\<not> of_int now - mtimeMs stats < 50" and "readFileSync (spool s) file = Inr content"
    and "JSON_parse env content = Some event" and "template_event event = Inr ()"
    and "unlinkSync (spool s) file = Inr d"
  shows "scan_file env now file s =
     (state_of (broadcast env event
        (s\<lparr>processedFiles := insert file (processedFiles s),
           fs_trace := fs_trace s @ [Stat file, ReadFile file]\<rparr>)))
     \<lparr>fs_trace := fs_trace s @ [Stat file, ReadFile file, Unlink file], spool := d\<rparr>"
proof -
  let ?s2 = "s\<lparr>processedFiles := insert file (processedFiles s),
           fs_trace := fs_trace s @ [Stat file, ReadFile file]\<rparr>"
  from assms(6) obtain v where g: "get_event event = Inr v" using template_get_event by blast
  from assms(6) obtain s3 where b: "broadcast env event ?s2 = Normal s3"
    using broadcast_returns by blast
  from broadcast_Normal_frame [OF b]
  have f: "spool s3 = spool s" "fs_trace s3 = fs_trace s @ [Stat file, ReadFile file]"
    by (simp_all add: only_sockets_console_def)
  from assms g b f show ?thesis
    by (simp add: scan_file_def consume_def)
qed

text \<open>
  C6. A spool file whose last-modified time lies within the 50 ms before the scan: the
  iteration of the loop only asks for its status; it does not read, broadcast or delete
  it, and its name is not in \<open>processedFiles\<close> afterwards. When the file is scanned again
  at a time at which it has aged past the window, and it is still there as it was, that
  iteration reads it, broadcasts its envelope and deletes it.
\<close>

theorem young_file_consumed_by_later_scan:
  assumes "file \<notin> processedFiles s" and "statSync (spool s) file = Inr stats"
    and "of_int now - mtimeMs stats < 50"
    and "\<not> of_int later - mtimeMs stats < 50" and "readFileSync (spool s) file = Inr content"
    and "JSON_parse env content = Some event" and "template_event event = Inr ()"
    and "unlinkSync (spool s) file = Inr d"
  shows "scan_file env now file s = s\<lparr>fs_trace := fs_trace s @ [Stat file]\<rparr> \<and>
     file \<notin> processedFiles (scan_file env now file s) \<and>
     scan_file env later file (scan_file env now file s) =
       (state_of (broadcast env event
          (s\<lparr>processedFiles := insert file (processedFiles s),
             fs_trace := fs_trace s @ [Stat file, Stat file, ReadFile file]\<rparr>)))
       \<lparr>fs_trace := fs_trace s @ [Stat file, Stat file, ReadFile file, Unlink file],
        spool := d\<rparr>"
proof -
  let ?s1 = "s\<lparr>fs_trace := fs_trace s @ [Stat file]\<rparr>"
  have a: "scan_file env now file s = ?s1"
    using assms(1-3) by (rule scan_file_young)
  have "scan_file env later file ?s1 =
     (state_of (broadcast env event
        (?s1\<lparr>processedFiles := insert file (processedFiles ?s1),
           fs_trace := fs_trace ?s1 @ [Stat file, ReadFile file]\<rparr>)))
     \<lparr>fs_trace := fs_trace ?s1 @ [Stat file, ReadFile file, Unlink file], spool := d\<rparr>"
    using assms by (intro scan_file_consumes [where stats = stats and content = content]) simp_all
  with a assms(1) show ?thesis by simp
qed

theorem young_file_consumed_by_later_scan_witness:
  "fs_trace (state_of (run demo_env [Tick 1020] demo_server)) =
     [Readdir, Stat ''tournament_42.json''] \<and>
   processedFiles (state_of (run demo_env [Tick 1020] demo_server)) = {} \<and>
   spool (state_of (run demo_env [Tick 1020] demo_server)) = demo_spool \<and>
   delivered (sockets (state_of (run demo_env [Tick 1020] demo_server)) 1) = [] \<and>
   fs_trace (state_of (run demo_env [Tick 1020, Tick 1600] demo_server)) =
     [Readdir, Stat ''tournament_42.json'', Readdir, Stat ''tournament_42.json'',
      ReadFile ''tournament_42.json'', Unlink ''tournament_42.json''] \<and>
   entries (spool (state_of (run demo_env [Tick 1020, Tick 1600] demo_server))) = [] \<and>
   delivered (sockets (state_of (run demo_env [Tick 1020, Tick 1600] demo_server)) 1) =
     [demo_text] \<and>
   scan_file demo_env 1020 ''tournament_42.json'' demo_server =
     demo_server\<lparr>fs_trace := [Stat ''tournament_42.json'']\<rparr> \<and>
   delivered (sockets (scan_file demo_env 1600 ''tournament_42.json''
     (scan_file demo_env 1020 ''tournament_42.json'' demo_server)) 1) = [demo_text]"
proof -
  have h1: "''tournament_42.json'' \<notin> processedFiles demo_server" by (simp add: demo_defs)
  have h2: "statSync (spool demo_server) ''tournament_42.json'' = Inr demo_file"
    by (simp add: demo_server_def demo_spool_def statSync_def)
  have h3: "of_int 1020 - mtimeMs demo_file < 50" by (simp add: demo_file_def)
  have h4: "\<not> of_int 1600 - mtimeMs demo_file < 50" by (simp add: demo_file_def)
  have h5: "readFileSync (spool demo_server) ''tournament_42.json'' = Inr demo_text"
    by (simp add: demo_server_def demo_spool_def readFileSync_def demo_file_def)
  have h6: "JSON_parse demo_env demo_text = Some demo_event" by (simp add: demo_env_def)
  have h7: "template_event demo_event = Inr ()" by (simp add: template_event_def demo_event_def)
  have h8: "unlinkSync (spool demo_server) ''tournament_42.json'' =
      Inr (demo_spool\<lparr>entries := []\<rparr>)"
    by (simp add: demo_server_def demo_spool_def unlinkSync_def demo_file_def)
  have r1: "state_of (run demo_env [Tick 1020] demo_server) =
      demo_server\<lparr>fs_trace := [Readdir, Stat ''tournament_42.json'']\<rparr>"
    by (simp add: code_defs demo_defs)
  have r2: "fs_trace (state_of (run demo_env [Tick 1020, Tick 1600] demo_server)) =
     [Readdir, Stat ''tournament_42.json'', Readdir, Stat ''tournament_42.json'',
      ReadFile ''tournament_42.json'', Unlink ''tournament_42.json'']"
    "entries (spool (state_of (run demo_env [Tick 1020, Tick 1600] demo_server))) = []"
    "delivered (sockets (state_of (run demo_env [Tick 1020, Tick 1600] demo_server)) 1) =
     [demo_text]"
    by (simp_all add: code_defs demo_defs)
  have b: "delivered (sockets (state_of (broadcast demo_env demo_event
      (demo_server\<lparr>processedFiles := insert ''tournament_42.json'' (processedFiles demo_server),
         fs_trace := fs_trace demo_server @
           [Stat ''tournament_42.json'', Stat ''tournament_42.json'',
            ReadFile ''tournament_42.json'']\<rparr>))) 1) = [demo_text]"
    by (simp add: code_defs demo_defs)
  have e: "fs_trace demo_server = []" "processedFiles demo_server = {}"
    "spool demo_server = demo_spool" "delivered (sockets demo_server 1) = []"
    by (simp_all add: demo_server_def demo_socket_def)
  note T = young_file_consumed_by_later_scan [OF h1 h2 h3 h4 h5 h6 h7 h8]
  have a: "scan_file demo_env 1020 ''tournament_42.json'' demo_server =
      demo_server\<lparr>fs_trace := [Stat ''tournament_42.json'']\<rparr>"
    by (simp add: T [THEN conjunct1] e)
  have c: "delivered (sockets (scan_file demo_env 1600 ''tournament_42.json''
      (scan_file demo_env 1020 ''tournament_42.json'' demo_server)) 1) = [demo_text]"
    using b by (simp add: T [THEN conjunct2, THEN conjunct2] e)
  have r: "fs_trace (state_of (run demo_env [Tick 1020] demo_server)) =
      [Readdir, Stat ''tournament_42.json'']"
    "processedFiles (state_of (run demo_env [Tick 1020] demo_server)) = {}"
    "spool (state_of (run demo_env [Tick 1020] demo_server)) = demo_spool"
    "delivered (sockets (state_of (run demo_env [Tick 1020] demo_server)) 1) = []"
    unfolding r1 using e by simp_all
  from a c r r2 show ?thesis by blast
qed

end
